theory Spec2Isabelle
  imports Main "HOL-Library.AList" "HOL-Library.Sublist"
begin

section \<open>The radix-tree router of src/router.ts\<close>

text \<open>
  The router keeps one radix tree per request method (class \<open>Radix\<close>) and a list of
  all registered routes (class \<open>Router\<close>). A JavaScript string is modelled as a
  \<^typ>\<open>string\<close>, one \<^typ>\<open>char\<close> per code unit; \<open>s[0]\<close> becomes \<open>take 1 s\<close>, which is
  the empty string where JavaScript yields \<open>undefined\<close>, and \<open>s.slice(a, b)\<close> becomes
  \<open>take (b - a) (drop a s)\<close>. A \<open>Map\<close> is an association list in insertion order:
  \<open>get\<close> is \<^const>\<open>map_of\<close>, \<open>set\<close> is \<^const>\<open>AList.update\<close> (an existing key keeps its
  place), \<open>delete\<close> is \<^const>\<open>AList.delete\<close>.
\<close>

subsection \<open>Helper functions (router.ts, lines 274-290)\<close>

definition isWildcard :: "char \<Rightarrow> bool" where
  "isWildcard c \<longleftrightarrow> c = CHR '':'' \<or> c = CHR ''*''"

text \<open>The index at which the two strings first differ, bounded by the shorter length.\<close>

fun longestCommonPrefix :: "string \<Rightarrow> string \<Rightarrow> nat" where
  "longestCommonPrefix (x # xs) (y # ys) =
     (if x = y then Suc (longestCommonPrefix xs ys) else 0)"
| "longestCommonPrefix _ _ = 0"

definition splitFromFirstSlash :: "string \<Rightarrow> string \<times> string" where
  "splitFromFirstSlash p =
     (takeWhile (\<lambda>c. c \<noteq> CHR ''/'') p, dropWhile (\<lambda>c. c \<noteq> CHR ''/'') p)"

subsection \<open>Nodes\<close>

text \<open>
  A node has a label \<open>path\<close>, a map of children keyed by the first character of the
  child's label, and an optional handler. Handlers are compared by identity only, so
  they are values of an arbitrary type \<open>'h\<close>.
\<close>

datatype 'h radix =
  Radix (path: string) (children: "(string \<times> 'h radix) list") (handler: "'h option")

text \<open>\<open>new Radix()\<close>.\<close>

definition empty_radix :: "'h radix" where
  "empty_radix = Radix [] [] None"

text \<open>
  The three errors \<open>Radix.add\<close> throws, told apart in the source by their message:
  "only one wildcard per path segment is allowed", "param must be named with a non-empty
  name" and "a handler is already registered for path".
\<close>

datatype error = WildcardConflictError | EmptyParamNameError | DuplicateRouteError

subsection \<open>Registration: merge and insert (lines 200-271)\<close>

text \<open>
  \<open>merge\<close> and \<open>insert\<close> mutate the tree in place and return a reference to a node
  inside it, which \<open>add\<close> goes on mutating. The model returns that node together with
  the chain of its parents below the node the operation started from (innermost first),
  each with the key of the slot the next node sits in. \<open>plug\<close> puts the node, once it
  has its final value, back into the chain; \<open>AList.update\<close> replaces a child under its key
  or appends a new one, as \<open>children.set\<close> does in the source.
\<close>

type_synonym 'h frame = "'h radix \<times> string"

fun plug :: "'h frame list \<Rightarrow> 'h radix \<Rightarrow> 'h radix" where
  "plug [] d = d"
| "plug ((n, k) # fs) d =
     plug fs (Radix (path n) (AList.update k d (children n)) (handler n))"

text \<open>The node after the split at index \<open>i\<close> of its label (lines 222-232).\<close>

definition split_node :: "'h radix \<Rightarrow> nat \<Rightarrow> 'h radix" where
  "split_node n i =
     Radix (take i (path n))
       [(take 1 (drop i (path n)), Radix (drop i (path n)) (children n) (handler n))]
       None"

lemma size_child:
  "map_of cs k = Some c \<Longrightarrow> size c < Suc (size_list (size_prod (\<lambda>_. 0) size) cs)"
  by (induction cs) (auto split: if_splits)

lemma longestCommonPrefix_differs:
  "longestCommonPrefix a b < length a \<Longrightarrow> longestCommonPrefix a b < length b \<Longrightarrow>
   take 1 (drop (longestCommonPrefix a b) a) \<noteq> take 1 (drop (longestCommonPrefix a b) b)"
  by (induction a b rule: longestCommonPrefix.induct) (auto simp: take_Suc split: list.splits)

text \<open>The loop of \<open>merge\<close> (lines 219-256).\<close>

function merge_loop ::
  "'h radix \<Rightarrow> string \<Rightarrow> 'h option \<Rightarrow> error + ('h frame list \<times> 'h radix)" where
  "merge_loop n pth h =
     (let i = longestCommonPrefix pth (path n);
          n1 = (if i < length (path n) then split_node n i else n)
      in if i < length pth then
           (case map_of (children n1) (take 1 (drop i pth)) of
              Some c \<Rightarrow>
                (case merge_loop c (drop i pth) h of
                   Inl e \<Rightarrow> Inl e
                 | Inr (fs, d) \<Rightarrow> Inr (fs @ [(n1, take 1 (drop i pth))], d))
            | None \<Rightarrow> Inr ([(n1, take 1 (drop i pth))], Radix (drop i pth) [] h))
         else if h \<noteq> None then
           (if handler n1 \<noteq> None then Inl DuplicateRouteError
            else Inr ([], Radix (path n1) (children n1) h))
         else Inr ([], n1))"
  by pat_completeness auto
termination
proof (relation "measure (\<lambda>(n, pth, h). size n)", goal_cases)
  case 1
  show ?case by simp
next
  case (2 n pth h i n1 c)
  show ?case
  proof (cases "i < length (path n)")
    case True
    with 2 have "take 1 (drop i pth) = take 1 (drop i (path n))"
      by (auto simp: split_node_def split: if_splits)
    moreover have "take 1 (drop i pth) \<noteq> take 1 (drop i (path n))"
      using longestCommonPrefix_differs [of pth "path n"] 2 True by simp
    ultimately show ?thesis by simp
  next
    case False
    with 2 have "map_of (children n) (take 1 (drop i pth)) = Some c" by simp
    from size_child [OF this] show ?thesis by (cases n) simp
  qed
qed

declare merge_loop.simps [simp del]

definition merge ::
  "'h radix \<Rightarrow> string \<Rightarrow> 'h option \<Rightarrow> error + ('h frame list \<times> 'h radix)" where
  "merge n pth h =
     (if path n = [] \<and> children n = [] then Inr ([], Radix pth (children n) h)
      else if pth = [] then
        (if handler n \<noteq> None then Inl DuplicateRouteError
         else Inr ([], Radix (path n) (children n) h))
      else merge_loop n pth h)"

definition insert_radix ::
  "'h radix \<Rightarrow> string \<Rightarrow> 'h option \<Rightarrow> error + ('h frame list \<times> 'h radix)" where
  "insert_radix n pth h =
     (case map_of (children n) (take 1 pth) of
        Some c \<Rightarrow>
          (case merge c pth h of
             Inl e \<Rightarrow> Inl e
           | Inr (fs, d) \<Rightarrow> Inr (fs @ [(n, take 1 pth)], d))
      | None \<Rightarrow> Inr ([(n, take 1 pth)], Radix pth [] h))"

subsection \<open>Registration: add (lines 75-119)\<close>

text \<open>The first loop of \<open>add\<close> (line 79): the index of the first marker, or the length.\<close>

definition skip_static :: "string \<Rightarrow> nat" where
  "skip_static pat = length (takeWhile (\<lambda>c. \<not> isWildcard c) pat)"

text \<open>
  The loop over the name of a marker (lines 93-100), from index \<open>i\<close>: the index of the
  next \<open>/\<close> (or the length), or the error of a second marker on the way.
\<close>

function scan_name :: "string \<Rightarrow> nat \<Rightarrow> error + nat" where
  "scan_name pat i =
     (if i < length pat \<and> pat ! i \<noteq> CHR ''/'' then
        (if isWildcard (pat ! i) then Inl WildcardConflictError else scan_name pat (Suc i))
      else Inr i)"
  by pat_completeness auto
termination
  by (relation "measure (\<lambda>(pat, i). length pat - i)") auto

declare scan_name.simps [simp del]

lemma scan_name_ge: "scan_name pat i = Inr k \<Longrightarrow> i \<le> k"
proof (induction pat i rule: scan_name.induct)
  case (1 pat i)
  then show ?case
    by (subst (asm) (2) scan_name.simps) (auto split: if_splits)
qed

definition slice :: "nat \<Rightarrow> nat \<Rightarrow> string \<Rightarrow> string" where
  "slice a b s = take (b - a) (drop a s)"

text \<open>
  The main loop of \<open>add\<close> (lines 83-118) with its final step, on the current node \<open>n\<close>;
  the result is \<open>n\<close> as the rest of the registration leaves it.
\<close>

function add_loop :: "string \<Rightarrow> 'h \<Rightarrow> nat \<Rightarrow> nat \<Rightarrow> 'h radix \<Rightarrow> error + 'h radix" where
  "add_loop pat h i j n =
     (if i < length pat then
        (if isWildcard (pat ! i) then
           (case (if j \<noteq> i then insert_radix n (slice j i pat) None else Inr ([], n)) of
              Inl e \<Rightarrow> Inl e
            | Inr (fs1, n1) \<Rightarrow>
                (case scan_name pat (Suc i) of
                   Inl e \<Rightarrow> Inl e
                 | Inr i2 \<Rightarrow>
                     if pat ! i = CHR '':'' \<and> i2 - i = 1 then Inl EmptyParamNameError
                     else
                       (case insert_radix n1 (slice i i2 pat) None of
                          Inl e \<Rightarrow> Inl e
                        | Inr (fs2, n2) \<Rightarrow>
                            (case add_loop pat h (Suc i2) i2 n2 of
                               Inl e \<Rightarrow> Inl e
                             | Inr n3 \<Rightarrow> Inr (plug fs1 (plug fs2 n3))))))
         else add_loop pat h (Suc i) j n)
      else if j = length pat then
        (case merge n [] (Some h) of
           Inl e \<Rightarrow> Inl e
         | Inr (fs, d) \<Rightarrow> Inr (plug fs d))
      else
        (case insert_radix n (slice j (length pat) pat) (Some h) of
           Inl e \<Rightarrow> Inl e
         | Inr (fs, d) \<Rightarrow> Inr (plug fs d)))"
  by pat_completeness auto
termination
  by (relation "measure (\<lambda>(pat, h, i, j, n). Suc (length pat) - i)")
    (auto dest: scan_name_ge scan_name_ge [OF sym])

declare add_loop.simps [simp del]

definition add :: "'h radix \<Rightarrow> string \<Rightarrow> 'h \<Rightarrow> error + 'h radix" where
  "add n pat h =
     (let i = skip_static pat in
        case merge n (take i pat) None of
          Inl e \<Rightarrow> Inl e
        | Inr (fs, n1) \<Rightarrow>
            (case add_loop pat h i i n1 of
               Inl e \<Rightarrow> Inl e
             | Inr n2 \<Rightarrow> Inr (plug fs n2)))"

subsection \<open>Lookup: find (lines 121-198)\<close>

text \<open>
  The search keeps a stack of entries (node, remaining path, visited) and the bindings
  made so far. The model's stack is a list with the top entry first; the source's array
  slots above the index \<open>i\<close> are dead (each is overwritten before it is read again).
\<close>

type_synonym 'h entry = "'h radix \<times> string \<times> bool"
type_synonym bindings = "(string \<times> string) list"

text \<open>Lines 177-194: the children pushed for the next path \<open>np\<close>, the last pushed on top.\<close>

definition push_children :: "'h radix \<Rightarrow> string \<Rightarrow> 'h entry list \<Rightarrow> 'h entry list" where
  "push_children n np st =
     (let st1 = (case map_of (children n) ''*'' of
                   Some c \<Rightarrow> (c, np, False) # st | None \<Rightarrow> st)
      in if np = [] then st1
         else
           (let st2 = (case map_of (children n) '':'' of
                         Some c \<Rightarrow> (c, np, False) # st1 | None \<Rightarrow> st1)
            in case map_of (children n) (take 1 np) of
                 Some c \<Rightarrow> (c, np, False) # st2 | None \<Rightarrow> st2))"

primrec weight :: "'h radix \<Rightarrow> nat" where
  "weight (Radix p cs h) = 2 + 3 * sum_list (map snd (map (map_prod id weight) cs))"

fun entry_weight :: "'h entry \<Rightarrow> nat" where
  "entry_weight (n, p, v) = (if v then 1 else weight n)"

lemma weight_child:
  "map_of cs k = Some c \<Longrightarrow> weight c \<le> sum_list (map snd (map (map_prod id weight) cs))"
  by (induction cs) (auto split: if_splits)

lemma weight_push_children:
  "sum_list (map entry_weight (push_children n np st)) + 2
     \<le> sum_list (map entry_weight st) + weight n"
proof -
  obtain p cs h where n: "n = Radix p cs h" by (cases n)
  define s where "s = sum_list (map snd (map (map_prod id weight) cs))"
  have le: "weight c \<le> s" if "map_of cs k = Some c" for k c
    using weight_child [OF that] by (simp add: s_def)
  have w: "weight n = 2 + 3 * s" by (simp add: n s_def)
  have c: "children n = cs" by (simp add: n)
  show ?thesis
    unfolding push_children_def Let_def w c
    by (auto split: option.splits dest!: le)
qed

lemma weight_visit:
  "sum_list (map entry_weight (push_children n np ((n, p, True) # st)))
     < weight n + sum_list (map entry_weight st)"
  using weight_push_children [of n np "(n, p, True) # st"] by simp

lemma weight_pos: "0 < weight n"
  by (cases n) simp

function find_loop :: "'h entry list \<Rightarrow> bindings \<Rightarrow> 'h option \<times> bindings" where
  "find_loop [] ps = (None, ps)"
| "find_loop ((n, p, v) # st) ps =
     (if v then
        find_loop st (if take 1 (path n) = '':'' then AList.delete (drop 1 (path n)) ps else ps)
      else if take 1 (path n) = ''*'' then
        (handler n, if length (path n) > 1 then AList.update (drop 1 (path n)) p ps else ps)
      else if take 1 (path n) = '':'' then
        (case splitFromFirstSlash p of
           (cp, np) \<Rightarrow>
             if np = [] then (handler n, AList.update (drop 1 (path n)) cp ps)
             else find_loop (push_children n np ((n, p, True) # st))
                    (AList.update (drop 1 (path n)) cp ps))
      else if path n = p then
        (if handler n = None then
           (if map_of (children n) ''*'' \<noteq> None
            then find_loop (push_children n [] ((n, p, True) # st)) ps
            else find_loop st ps)
         else (handler n, ps))
      else if longestCommonPrefix (path n) p \<noteq> length (path n) then find_loop st ps
      else find_loop
             (push_children n (drop (longestCommonPrefix (path n) p) p) ((n, p, True) # st)) ps)"
  by pat_completeness auto
termination
  by (relation "measure (\<lambda>(st, ps). sum_list (map entry_weight st))")
    (simp_all add: weight_visit weight_pos)

declare find_loop.simps [simp del]

definition find_radix :: "'h radix \<Rightarrow> string \<Rightarrow> 'h option \<times> bindings" where
  "find_radix t p = find_loop [(t, p, False)] []"

subsection \<open>The router (lines 8-58)\<close>

text \<open>
  A route as \<open>Router\<close> uses it: \<open>method\<close>, \<open>path\<close> and \<open>callback\<close> are read by \<open>add\<close>
  (the first two are the fields \<open>route_method\<close> and \<open>route_path\<close> here),
  \<open>params\<close> is written by \<open>find\<close>, and \<open>template\<close> is the further property that the
  registration in src/app.ts stores with a route. The type itself is declared in defs.ts,
  which is not among the sources. \<open>params\<close> is \<open>None\<close> until \<open>find\<close> assigns it.
\<close>

record 'h route =
  route_method :: string
  route_path :: string
  callback :: 'h
  template :: "string option"
  params :: "bindings option"

text \<open>
  \<open>radixGroup\<close> maps a method to its tree, \<open>routes\<close> is the list \<open>_routes\<close>. Every entry
  of the list is an object of its own.
\<close>

record 'h router =
  radixGroup :: "string \<rightharpoonup> 'h radix"
  routes :: "'h route list"

definition empty_router :: "'h router" where
  "empty_router = \<lparr>radixGroup = Map.empty, routes = []\<rparr>"

text \<open>
  \<open>Router.add\<close>: an error thrown by \<open>Radix.add\<close> leaves the method through \<open>Router.add\<close>,
  and the route is not appended; the model gives the error alone.
\<close>

definition router_add :: "'h router \<Rightarrow> 'h route \<Rightarrow> error + 'h router" where
  "router_add r route =
     (let radix = (case radixGroup r (route_method route) of
                     None \<Rightarrow> empty_radix | Some t \<Rightarrow> t)
      in case add radix (route_path route) (callback route) of
           Inl e \<Rightarrow> Inl e
         | Inr t \<Rightarrow>
             Inr (r\<lparr>radixGroup := (radixGroup r)(route_method route \<mapsto> t),
                    routes := routes r @ [route]\<rparr>))"

text \<open>
  \<open>Router.find\<close> assigns \<open>params\<close> of the first route of the list whose callback is the
  one found, in place, and returns that route; the model returns the route and the
  router after the assignment.
\<close>

fun assign_params :: "'h \<Rightarrow> bindings \<Rightarrow> 'h route list \<Rightarrow> 'h route list" where
  "assign_params cb ps [] = []"
| "assign_params cb ps (v # vs) =
     (if callback v = cb then v\<lparr>params := Some ps\<rparr> # vs
      else v # assign_params cb ps vs)"

definition router_find ::
  "'h router \<Rightarrow> string \<Rightarrow> string \<Rightarrow> 'h route option \<times> 'h router" where
  "router_find r m p =
     (case radixGroup r m of
        None \<Rightarrow> (None, r)
      | Some radix \<Rightarrow>
          (case find_radix radix p of
             (None, ps) \<Rightarrow> (None, r)
           | (Some cb, ps) \<Rightarrow>
               (case List.find (\<lambda>v. callback v = cb) (routes r) of
                  None \<Rightarrow> (None, r)
                | Some route \<Rightarrow>
                    (Some (route\<lparr>params := Some ps\<rparr>),
                     r\<lparr>routes := assign_params cb ps (routes r)\<rparr>))))"

text \<open>
  \<open>radixGroup\<close> and \<open>params\<close> are plain objects. The map \<open>radixGroup\<close> of the model holds
  the properties the router has set. For a method that is the name of a member of
  \<open>Object.prototype\<close> and has no tree yet, the source reads that member instead, and its
  call of \<open>add\<close> or \<open>find\<close> on it raises a \<open>TypeError\<close>. The assignment of a binding
  named \<open>__proto__\<close> to \<open>params\<close> sets no property. The model is of the other methods
  and bindings: \<open>proto_member\<close> holds of the method names left out, and the statements about
  the router that range over methods or bindings say so.
\<close>

definition proto_member :: "string \<Rightarrow> bool" where
  "proto_member m \<longleftrightarrow>
     m \<in> {''constructor'', ''hasOwnProperty'', ''isPrototypeOf'', ''propertyIsEnumerable'',
          ''toLocaleString'', ''toString'', ''valueOf'', ''__proto__'', ''__defineGetter__'',
          ''__defineSetter__'', ''__lookupGetter__'', ''__lookupSetter__''}"

text \<open>A sequence of registrations on one tree, and on the router; the first error stops it.\<close>

fun adds :: "'h radix \<Rightarrow> (string \<times> 'h) list \<Rightarrow> error + 'h radix" where
  "adds t [] = Inr t"
| "adds t ((pat, h) # rs) =
     (case add t pat h of Inl e \<Rightarrow> Inl e | Inr t' \<Rightarrow> adds t' rs)"

fun router_adds :: "'h router \<Rightarrow> 'h route list \<Rightarrow> error + 'h router" where
  "router_adds r [] = Inr r"
| "router_adds r (v # vs) =
     (case router_add r v of Inl e \<Rightarrow> Inl e | Inr r' \<Rightarrow> router_adds r' vs)"

text \<open>The route object \<open>{ method, path, callback }\<close> as it is handed to \<open>Router.add\<close>.\<close>

definition mk_route :: "string \<Rightarrow> string \<Rightarrow> 'h \<Rightarrow> 'h route" where
  "mk_route m p h =
     \<lparr>route_method = m, route_path = p, callback = h, template = None, params = None\<rparr>"

section \<open>Evaluation on concrete inputs\<close>

lemmas add_eval = add_def skip_static_def merge_def merge_loop.simps insert_radix_def
  add_loop.simps scan_name.simps isWildcard_def slice_def empty_radix_def Let_def split_node_def

lemmas find_eval = find_radix_def find_loop.simps push_children_def splitFromFirstSlash_def
  Let_def

lemmas router_eval = router_add_def router_find_def empty_router_def mk_route_def

section \<open>Wildcard capture\<close>

text \<open>
  Claim C2. A wildcard node on top of the stack ends the search at once: the result is
  the node's handler, and the node's name, when it has one, is bound to the whole
  remaining path; neither the node's children nor the rest of the stack are looked at.
  With \<open>GET /files/*rest\<close> registered, \<open>find("GET", "/files/a/b/c")\<close> returns the route
  with \<open>rest\<close> bound to \<open>a/b/c\<close>.
\<close>

theorem wildcard_node_is_terminal:
  "(take 1 (path n) = ''*'' \<longrightarrow>
      find_loop ((n, p, False) # st) ps =
        (handler n, if 1 < length (path n) then AList.update (drop 1 (path n)) p ps else ps)) \<and>
   (\<exists>r. router_add empty_router (mk_route ''GET'' ''/files/*rest'' h) = Inr r \<and>
      fst (router_find r ''GET'' ''/files/a/b/c'') =
        Some ((mk_route ''GET'' ''/files/*rest'' h)\<lparr>params := Some [(''rest'', ''a/b/c'')]\<rparr>))"
proof (intro conjI impI)
  assume "take 1 (path n) = ''*''"
  then show "find_loop ((n, p, False) # st) ps =
      (handler n, if 1 < length (path n) then AList.update (drop 1 (path n)) p ps else ps)"
    by (simp add: find_loop.simps)
next
  have a: "add empty_radix ''/files/*rest'' h =
      Inr (Radix ''/files/'' [(''*'', Radix ''*rest'' [] (Some h))] None)"
    by (simp add: add_eval)
  have f: "find_radix (Radix ''/files/'' [(''*'', Radix ''*rest'' [] (Some h))] None)
      ''/files/a/b/c'' = (Some h, [(''rest'', ''a/b/c'')])"
    by (simp add: find_eval)
  show "\<exists>r. router_add empty_router (mk_route ''GET'' ''/files/*rest'' h) = Inr r \<and>
      fst (router_find r ''GET'' ''/files/a/b/c'') =
        Some ((mk_route ''GET'' ''/files/*rest'' h)\<lparr>params := Some [(''rest'', ''a/b/c'')]\<rparr>)"
    by (simp add: router_eval a f)
qed

theorem wildcard_node_is_terminal_witness:
  "take 1 (path (Radix ''*rest'' [(''/'', Radix ''/x'' [] (Some ''h2''))] (Some ''h1''))) = ''*'' \<and>
   find_loop
     [(Radix ''*rest'' [(''/'', Radix ''/x'' [] (Some ''h2''))] (Some ''h1''), ''a/b/c'', False)] []
     = (Some ''h1'', [(''rest'', ''a/b/c'')])"
proof -
  let ?n = "Radix ''*rest'' [(''/'', Radix ''/x'' [] (Some ''h2''))] (Some ''h1'')"
  have s: "take 1 (path ?n) = ''*''" by simp
  from wildcard_node_is_terminal [of ?n "''a/b/c''" "[]" "[]" "''h1''"]
  have "take 1 (path ?n) = ''*'' \<longrightarrow>
      find_loop [(?n, ''a/b/c'', False)] [] =
        (handler ?n,
         if 1 < length (path ?n) then AList.update (drop 1 (path ?n)) ''a/b/c'' [] else [])"
    by (rule conjunct1)
  with s show ?thesis by simp
qed

section \<open>The route returned by the router\<close>

lemma assign_params_unchanged:
  "map (\<lambda>v. v\<lparr>params := None\<rparr>) (assign_params cb ps vs) = map (\<lambda>v. v\<lparr>params := None\<rparr>) vs"
  by (induction vs) auto

lemma assign_params_nth:
  "i < length vs \<Longrightarrow> assign_params cb ps vs ! i \<noteq> vs ! i \<Longrightarrow>
   List.find (\<lambda>v. callback v = cb) vs = Some (vs ! i) \<and>
   assign_params cb ps vs ! i = (vs ! i)\<lparr>params := Some ps\<rparr>"
  by (induction vs arbitrary: i) (auto simp: nth_Cons split: nat.splits)

text \<open>
  Claim C10. When the lookup in the tree of the method yields the callback \<open>cb\<close>, the
  router returns the earliest registered route whose callback is \<open>cb\<close> (with the
  bindings of this lookup as its \<open>params\<close>), whichever pattern matched the path.
\<close>

theorem find_returns_earliest_route:
  assumes "radixGroup r m = Some t" and "find_radix t p = (Some cb, ps)"
    and "i < length (routes r)" and "callback (routes r ! i) = cb"
    and "\<forall>j<i. callback (routes r ! j) \<noteq> cb"
  shows "fst (router_find r m p) = Some ((routes r ! i)\<lparr>params := Some ps\<rparr>)"
proof -
  have "List.find (\<lambda>v. callback v = cb) (routes r) = Some (routes r ! i)"
    using assms(3-5) unfolding find_Some_iff by blast
  with assms(1,2) show ?thesis by (simp add: router_find_def)
qed

text \<open>
  The router after \<open>add("GET", "/a", h)\<close> and \<open>add("GET", "/b", h)\<close>: the path \<open>/b\<close>
  is answered with the route registered for \<open>/a\<close>.
\<close>

definition two_routes :: "string router" where
  "two_routes =
     \<lparr>radixGroup =
        [''GET'' \<mapsto> Radix ''/'' [(''a'', Radix ''a'' [] (Some ''h'')),
                                 (''b'', Radix ''b'' [] (Some ''h''))] None],
      routes = [mk_route ''GET'' ''/a'' ''h'', mk_route ''GET'' ''/b'' ''h'']\<rparr>"

lemma two_routes_built:
  "\<exists>r1. router_add empty_router (mk_route ''GET'' ''/a'' ''h'') = Inr r1 \<and>
     router_add r1 (mk_route ''GET'' ''/b'' ''h'') = Inr two_routes"
proof -
  have a1: "add empty_radix ''/a'' ''h'' = Inr (Radix ''/a'' [] (Some ''h''))"
    by (simp add: add_eval)
  have a2: "add (Radix ''/a'' [] (Some ''h'')) ''/b'' ''h'' =
      Inr (Radix ''/'' [(''a'', Radix ''a'' [] (Some ''h'')),
                        (''b'', Radix ''b'' [] (Some ''h''))] None)"
    by (simp add: add_eval)
  show ?thesis
    by (simp add: router_eval a1 a2 two_routes_def)
qed

theorem find_returns_earliest_route_witness:
  "(\<exists>r1. router_add empty_router (mk_route ''GET'' ''/a'' ''h'') = Inr r1 \<and>
     router_add r1 (mk_route ''GET'' ''/b'' ''h'') = Inr two_routes) \<and>
   fst (router_find two_routes ''GET'' ''/b'') =
     Some ((mk_route ''GET'' ''/a'' ''h'')\<lparr>params := Some []\<rparr>)"
proof -
  let ?t = "Radix ''/'' [(''a'', Radix ''a'' [] (Some ''h'')),
                         (''b'', Radix ''b'' [] (Some ''h''))] None"
  have f: "find_radix ?t ''/b'' = (Some ''h'', [])"
    by (simp add: find_eval)
  have g: "radixGroup two_routes ''GET'' = Some ?t"
    by (simp add: two_routes_def)
  have "fst (router_find two_routes ''GET'' ''/b'') =
      Some ((routes two_routes ! 0)\<lparr>params := Some []\<rparr>)"
    by (rule find_returns_earliest_route [OF g f]) (simp_all add: two_routes_def mk_route_def)
  then show ?thesis
    using two_routes_built by (simp add: two_routes_def)
qed

section \<open>What a lookup changes\<close>

text \<open>
  Claim C6, as stated, fails: \<open>Router.find\<close> assigns \<open>params\<close> of the stored route it
  returns. After \<open>add("GET", "/a/:id", h)\<close> the lookup of \<open>/a/7\<close> leaves a router whose
  stored route has \<open>id\<close> bound to \<open>7\<close>.
\<close>

theorem router_find_assigns_params:
  "\<exists>r. router_add empty_router (mk_route ''GET'' ''/a/:id'' ''h'') = Inr r \<and>
     routes r = [mk_route ''GET'' ''/a/:id'' ''h''] \<and>
     routes (snd (router_find r ''GET'' ''/a/7'')) =
       [(mk_route ''GET'' ''/a/:id'' ''h'')\<lparr>params := Some [(''id'', ''7'')]\<rparr>] \<and>
     snd (router_find r ''GET'' ''/a/7'') \<noteq> r"
proof -
  have a: "add empty_radix ''/a/:id'' ''h'' =
      Inr (Radix ''/a/'' [('':'', Radix '':id'' [] (Some ''h''))] None)"
    by (simp add: add_eval)
  have f: "find_radix (Radix ''/a/'' [('':'', Radix '':id'' [] (Some ''h''))] None) ''/a/7'' =
      (Some ''h'', [(''id'', ''7'')])"
    by (simp add: find_eval)
  show ?thesis
    by (simp add: router_eval a f)
qed

lemma assign_params_first:
  "i < length vs \<Longrightarrow> callback (vs ! i) = cb \<Longrightarrow> \<forall>j<i. callback (vs ! j) \<noteq> cb \<Longrightarrow>
   assign_params cb ps vs = vs[i := (vs ! i)\<lparr>params := Some ps\<rparr>]"
proof (induction vs arbitrary: i)
  case Nil
  then show ?case by simp
next
  case (Cons v vs)
  show ?case
  proof (cases i)
    case 0
    with Cons.prems show ?thesis by simp
  next
    case (Suc k)
    with Cons.prems have "callback v \<noteq> cb" by auto
    moreover from Cons.prems Suc have "k < length vs" "callback (vs ! k) = cb"
      "\<forall>j<k. callback (vs ! j) \<noteq> cb" by auto
    ultimately show ?thesis using Cons.IH [of k] Suc by simp
  qed
qed

definition one_route :: "string router" where
  "one_route =
     \<lparr>radixGroup = [''GET'' \<mapsto> Radix ''/a/'' [('':'', Radix '':id'' [] (Some ''h''))] None],
      routes = [mk_route ''GET'' ''/a/:id'' ''h'']\<rparr>"

lemma one_route_find:
  "router_find one_route ''GET'' ''/a/7'' =
     (Some ((mk_route ''GET'' ''/a/:id'' ''h'')\<lparr>params := Some [(''id'', ''7'')]\<rparr>),
      one_route\<lparr>routes := [(mk_route ''GET'' ''/a/:id'' ''h'')\<lparr>params := Some [(''id'', ''7'')]\<rparr>]\<rparr>)"
proof -
  have f: "find_radix (Radix ''/a/'' [('':'', Radix '':id'' [] (Some ''h''))] None) ''/a/7'' =
      (Some ''h'', [(''id'', ''7'')])"
    by (simp add: find_eval)
  show ?thesis
    by (simp add: router_eval one_route_def f)
qed

text \<open>
  Claim C6, amended, for a method that is not the name of a member of \<open>Object.prototype\<close>
  and a lookup none of whose bindings is named \<open>__proto__\<close>. A lookup leaves every tree
  unchanged, and the list of routes keeps its length, its order and every field of every
  route other than \<open>params\<close>. It returns a route whenever the tree of the method yields a
  callback that a stored route has. The route it returns is the first stored route with
  the callback found, with the bindings of this lookup as its \<open>params\<close>, and the list
  after the lookup is the list before with that route in the place of the stored one. A
  lookup that returns nothing changes nothing.
\<close>

theorem router_find_effect:
  assumes "\<not> proto_member m"
    and "\<forall>t. radixGroup r m = Some t \<longrightarrow> ''__proto__'' \<notin> fst ` set (snd (find_radix t p))"
  shows "radixGroup (snd (router_find r m p)) = radixGroup r \<and>
     map (\<lambda>v. v\<lparr>params := None\<rparr>) (routes (snd (router_find r m p))) =
       map (\<lambda>v. v\<lparr>params := None\<rparr>) (routes r) \<and>
     (\<forall>t cb ps. radixGroup r m = Some t \<and> find_radix t p = (Some cb, ps) \<and>
        cb \<in> callback ` set (routes r) \<longrightarrow> fst (router_find r m p) \<noteq> None) \<and>
     (case fst (router_find r m p) of
        None \<Rightarrow> snd (router_find r m p) = r
      | Some v \<Rightarrow>
          \<exists>t cb ps i. radixGroup r m = Some t \<and> find_radix t p = (Some cb, ps) \<and>
            i < length (routes r) \<and> callback (routes r ! i) = cb \<and>
            (\<forall>j<i. callback (routes r ! j) \<noteq> cb) \<and>
            v = (routes r ! i)\<lparr>params := Some ps\<rparr> \<and>
            routes (snd (router_find r m p)) = (routes r)[i := v])"
proof (cases "radixGroup r m")
  case None
  then show ?thesis by (simp add: router_find_def)
next
  case (Some t)
  obtain ho ps where f: "find_radix t p = (ho, ps)" by (cases "find_radix t p")
  show ?thesis
  proof (cases ho)
    case None
    with Some f show ?thesis by (simp add: router_find_def)
  next
    case cb: (Some cb)
    show ?thesis
    proof (cases "List.find (\<lambda>v. callback v = cb) (routes r)")
      case None
      then have "cb \<notin> callback ` set (routes r)"
        by (auto simp: find_None_iff)
      with Some f cb None show ?thesis by (simp add: router_find_def)
    next
      case found: (Some route)
      then obtain i where i: "i < length (routes r)" "callback (routes r ! i) = cb"
        "route = routes r ! i" "\<forall>j<i. callback (routes r ! j) \<noteq> cb"
        unfolding find_Some_iff by blast
      from assign_params_first [OF i(1,2,4), of ps]
      have a: "assign_params cb ps (routes r) = (routes r)[i := (routes r ! i)\<lparr>params := Some ps\<rparr>]" .
      have res: "router_find r m p =
          (Some ((routes r ! i)\<lparr>params := Some ps\<rparr>),
           r\<lparr>routes := (routes r)[i := (routes r ! i)\<lparr>params := Some ps\<rparr>]\<rparr>)"
        using Some f cb found i(3) a by (simp add: router_find_def)
      have "map (\<lambda>v. v\<lparr>params := None\<rparr>) ((routes r)[i := (routes r ! i)\<lparr>params := Some ps\<rparr>]) =
          map (\<lambda>v. v\<lparr>params := None\<rparr>) (routes r)"
        using assign_params_unchanged [of cb ps "routes r"] a by simp
      with Some f cb i show ?thesis
        unfolding res by auto
    qed
  qed
qed

theorem router_find_effect_witness:
  "radixGroup (snd (router_find one_route ''GET'' ''/a/7'')) = radixGroup one_route \<and>
   fst (router_find one_route ''GET'' ''/a/7'') =
     Some ((routes one_route ! 0)\<lparr>params := Some [(''id'', ''7'')]\<rparr>) \<and>
   routes (snd (router_find one_route ''GET'' ''/a/7'')) =
     (routes one_route)[0 := (routes one_route ! 0)\<lparr>params := Some [(''id'', ''7'')]\<rparr>] \<and>
   fst (router_find one_route ''GET'' ''/x'') = None \<and>
   snd (router_find one_route ''GET'' ''/x'') = one_route"
proof -
  let ?t = "Radix ''/a/'' [('':'', Radix '':id'' [] (Some ''h''))] None"
  have g: "radixGroup one_route ''GET'' = Some ?t"
    by (simp add: one_route_def)
  have f7: "find_radix ?t ''/a/7'' = (Some ''h'', [(''id'', ''7'')])"
    by (simp add: find_eval)
  have fx: "find_radix ?t ''/x'' = (None, [])"
    by (simp add: find_eval)
  have m: "\<not> proto_member ''GET''"
    by (simp add: proto_member_def)
  have p7: "\<forall>t. radixGroup one_route ''GET'' = Some t \<longrightarrow>
      ''__proto__'' \<notin> fst ` set (snd (find_radix t ''/a/7''))"
    by (simp add: g f7)
  have px: "\<forall>t. radixGroup one_route ''GET'' = Some t \<longrightarrow>
      ''__proto__'' \<notin> fst ` set (snd (find_radix t ''/x''))"
    by (simp add: g fx)
  note e7 = router_find_effect [OF m p7]
  note ex = router_find_effect [OF m px]
  have r: "routes one_route = [mk_route ''GET'' ''/a/:id'' ''h'']"
    by (simp add: one_route_def)
  from e7 g f7 have some: "fst (router_find one_route ''GET'' ''/a/7'') \<noteq> None"
    by (simp add: r mk_route_def)
  then obtain v where v: "fst (router_find one_route ''GET'' ''/a/7'') = Some v" by auto
  with e7 g f7 obtain i where i: "i < length (routes one_route)"
    "v = (routes one_route ! i)\<lparr>params := Some [(''id'', ''7'')]\<rparr>"
    "routes (snd (router_find one_route ''GET'' ''/a/7'')) = (routes one_route)[i := v]"
    by auto
  from i(1) have i0: "i = 0" by (simp add: r)
  have none: "fst (router_find one_route ''GET'' ''/x'') = None"
  proof (cases "fst (router_find one_route ''GET'' ''/x'')")
    case None
    then show ?thesis .
  next
    case (Some u)
    with ex g fx show ?thesis by auto
  qed
  with ex have "snd (router_find one_route ''GET'' ''/x'') = one_route" by simp
  with e7 v i i0 none show ?thesis by simp
qed

section \<open>Matching by recursive descent\<close>

text \<open>
  The specification describes the search as a recursive descent with backtracking. The
  function \<open>branch_matches\<close> follows the specification's words, not the source: it lists,
  in the order of precedence (static child, then parameter child, then wildcard child),
  every branch of the tree that matches the whole path and ends at a node with a
  handler, each with the captures made along it, from the root down. It is the function
  the results of \<open>find\<close> are compared with.
\<close>

definition option_list :: "'a option \<Rightarrow> 'a list" where
  "option_list x = (case x of None \<Rightarrow> [] | Some a \<Rightarrow> [a])"

definition candidates :: "'h radix \<Rightarrow> string \<Rightarrow> 'h radix list" where
  "candidates n np =
     (if np = [] then []
      else (if take 1 np = '':'' \<or> take 1 np = ''*'' then []
            else option_list (map_of (children n) (take 1 np)))
           @ option_list (map_of (children n) '':''))
     @ option_list (map_of (children n) ''*'')"

lemma candidates_child:
  "c \<in> set (candidates n np) \<Longrightarrow> \<exists>k. map_of (children n) k = Some c"
  by (auto simp: candidates_def option_list_def split: option.splits if_splits)

lemma candidates_size:
  assumes "c \<in> set (candidates n np)"
  shows "size c < size n"
proof -
  from candidates_child [OF assms] obtain k where "map_of (children n) k = Some c" ..
  from size_child [OF this] show ?thesis by (cases n) simp
qed

function branch_matches :: "'h radix \<Rightarrow> string \<Rightarrow> (bindings \<times> 'h) list" where
  "branch_matches n p =
     (if take 1 (path n) = ''*'' then
        (case handler n of
           None \<Rightarrow> []
         | Some h \<Rightarrow> [(if 1 < length (path n) then [(drop 1 (path n), p)] else [], h)])
      else if take 1 (path n) = '':'' then
        (case splitFromFirstSlash p of
           (cp, np) \<Rightarrow>
             map (\<lambda>(bs, h). ((drop 1 (path n), cp) # bs, h))
               (if np = [] \<and> handler n \<noteq> None then [([], the (handler n))]
                else concat (map (\<lambda>c. branch_matches c np) (candidates n np))))
      else if take (length (path n)) p = path n then
        (if path n = p \<and> handler n \<noteq> None then [([], the (handler n))]
         else concat (map (\<lambda>c. branch_matches c (drop (length (path n)) p))
                (candidates n (drop (length (path n)) p))))
      else [])"
  by pat_completeness auto
termination
  by (relation "measure (\<lambda>(n, p). size n)") (auto dest: candidates_size)

declare branch_matches.simps [simp del]

fun capture_name :: "'h radix \<Rightarrow> string option" where
  "capture_name n =
     (if take 1 (path n) = '':'' \<or> take 1 (path n) = ''*'' \<and> 1 < length (path n)
      then Some (drop 1 (path n)) else None)"

fun names_ok :: "string set \<Rightarrow> 'h radix \<Rightarrow> bool" where
  "names_ok seen (Radix lbl cs h) =
     (case capture_name (Radix lbl cs h) of
        Some nm \<Rightarrow> nm \<notin> seen \<and> (\<forall>(k, c) \<in> set cs. names_ok (insert nm seen) c)
      | None \<Rightarrow> (\<forall>(k, c) \<in> set cs. names_ok seen c))"

lemmas spec_eval = branch_matches.simps candidates_def option_list_def splitFromFirstSlash_def

fun entry_capture :: "'h entry \<Rightarrow> bindings" where
  "entry_capture (n, p, v) =
     (if v \<and> take 1 (path n) = '':'' then [(drop 1 (path n), fst (splitFromFirstSlash p))]
      else [])"

definition ctx :: "'h entry list \<Rightarrow> bindings" where
  "ctx st = concat (map entry_capture (rev st))"

definition lifts :: "'h radix \<Rightarrow> string \<Rightarrow> bindings \<Rightarrow> 'h radix \<Rightarrow> string \<Rightarrow> bool" where
  "lifts t0 p0 pre n q \<longleftrightarrow>
     (\<forall>bs h. (bs, h) \<in> set (branch_matches n q) \<longrightarrow> (pre @ bs, h) \<in> set (branch_matches t0 p0))"

fun stack_inv :: "'h radix \<Rightarrow> string \<Rightarrow> 'h entry list \<Rightarrow> bool" where
  "stack_inv t0 p0 [] = True"
| "stack_inv t0 p0 ((n, q, v) # st) =
     (stack_inv t0 p0 st \<and> distinct (map fst (ctx ((n, q, v) # st))) \<and>
      (\<not> v \<longrightarrow> names_ok (fst ` set (ctx st)) n \<and> lifts t0 p0 (ctx st) n q))"

lemma ctx_Cons: "ctx (e # st) = ctx st @ entry_capture e"
  by (simp add: ctx_def)

lemma ctx_unvisited [simp]: "ctx ((n, q, False) # st) = ctx st"
  by (simp add: ctx_Cons)

lemma update_fresh: "k \<notin> fst ` set xs \<Longrightarrow> AList.update k v xs = xs @ [(k, v)]"
  by (induction xs) auto

lemma delete_last: "k \<notin> fst ` set xs \<Longrightarrow> AList.delete k (xs @ [(k, v)]) = xs"
  by (induction xs) (auto simp: AList.delete_eq)

lemma push_children_shape:
  "\<exists>new. push_children n np S = new @ S \<and>
     (\<forall>e \<in> set new. \<exists>c. e = (c, np, False) \<and> c \<in> set (candidates n np))"
  by (auto simp: push_children_def candidates_def option_list_def Let_def split: option.splits)

lemma names_ok_child:
  assumes "names_ok seen n" and "map_of (children n) k = Some c"
  shows "names_ok (seen \<union> set_option (capture_name n)) c"
proof -
  from assms(2) have "(k, c) \<in> set (children n)" by (rule map_of_SomeD)
  with assms(1) show ?thesis
    by (cases n) (auto split: option.splits if_splits)
qed

lemma names_ok_fresh: "names_ok seen n \<Longrightarrow> capture_name n = Some nm \<Longrightarrow> nm \<notin> seen"
  by (cases n) (auto split: option.splits if_splits)

lemma stack_inv_push:
  assumes "stack_inv t0 p0 S"
    and "distinct (map fst (ctx S))"
    and "\<forall>e \<in> set new. \<exists>c q. e = (c, q, False) \<and> names_ok (fst ` set (ctx S)) c \<and>
           lifts t0 p0 (ctx S) c q"
  shows "stack_inv t0 p0 (new @ S) \<and> ctx (new @ S) = ctx S"
  using assms(3)
proof (induction new)
  case Nil
  with assms(1) show ?case by simp
next
  case (Cons e new)
  then obtain c q where e: "e = (c, q, False)"
    and c: "names_ok (fst ` set (ctx S)) c" "lifts t0 p0 (ctx S) c q"
    by auto
  from Cons have IH: "stack_inv t0 p0 (new @ S)" "ctx (new @ S) = ctx S" by auto
  with e c assms(2) show ?case by simp
qed

lemma lcp_full: "longestCommonPrefix a b = length a \<longleftrightarrow> take (length a) b = a"
  by (induction a b rule: longestCommonPrefix.induct) auto


lemma stack_inv_distinct: "stack_inv t0 p0 st \<Longrightarrow> distinct (map fst (ctx st))"
proof (cases st)
  case Nil
  then show ?thesis by (simp add: ctx_def)
next
  case (Cons e st')
  assume "stack_inv t0 p0 st"
  with Cons show ?thesis by (cases e) simp
qed

lemma capture_name_visited:
  "take 1 (path n) \<noteq> ''*'' \<Longrightarrow>
   entry_capture (n, p, True) =
     (case capture_name n of None \<Rightarrow> [] | Some nm \<Rightarrow> [(nm, fst (splitFromFirstSlash p))])"
  by simp

lemma descend_inv:
  assumes inv: "stack_inv t0 p0 st"
    and ok: "names_ok (fst ` set (ctx st)) n"
    and lift: "lifts t0 p0 (ctx st) n p"
    and nw: "take 1 (path n) \<noteq> ''*''"
    and D: "\<And>c bs h. c \<in> set (candidates n np) \<Longrightarrow> (bs, h) \<in> set (branch_matches c np) \<Longrightarrow>
              (entry_capture (n, p, True) @ bs, h) \<in> set (branch_matches n p)"
  shows "stack_inv t0 p0 (push_children n np ((n, p, True) # st)) \<and>
         ctx (push_children n np ((n, p, True) # st)) = ctx st @ entry_capture (n, p, True)"
proof -
  let ?S = "(n, p, True) # st"
  have cS: "ctx ?S = ctx st @ entry_capture (n, p, True)" by (rule ctx_Cons)
  have fresh: "nm \<notin> fst ` set (ctx st)" if "capture_name n = Some nm" for nm
    using names_ok_fresh [OF ok that] .
  have keys: "fst ` set (ctx ?S) = fst ` set (ctx st) \<union> set_option (capture_name n)"
    unfolding cS capture_name_visited [OF nw] by (auto split: option.splits)
  have dS: "distinct (map fst (ctx ?S))"
    unfolding cS capture_name_visited [OF nw]
    using stack_inv_distinct [OF inv] fresh by (auto split: option.splits)
  have invS: "stack_inv t0 p0 ?S"
    using inv dS by simp
  obtain new where new: "push_children n np ?S = new @ ?S"
    and mem: "\<forall>e \<in> set new. \<exists>c. e = (c, np, False) \<and> c \<in> set (candidates n np)"
    using push_children_shape [of n np ?S] by blast
  have "\<forall>e \<in> set new. \<exists>c q. e = (c, q, False) \<and> names_ok (fst ` set (ctx ?S)) c \<and>
           lifts t0 p0 (ctx ?S) c q"
  proof
    fix e assume "e \<in> set new"
    with mem obtain c where e: "e = (c, np, False)" and c: "c \<in> set (candidates n np)"
      by blast
    from candidates_child [OF c] obtain k where "map_of (children n) k = Some c" ..
    from names_ok_child [OF ok this] have 1: "names_ok (fst ` set (ctx ?S)) c"
      by (simp only: keys)
    have 2: "lifts t0 p0 (ctx ?S) c np"
      unfolding lifts_def cS
    proof (intro allI impI)
      fix bs h assume "(bs, h) \<in> set (branch_matches c np)"
      from D [OF c this] lift
      show "((ctx st @ entry_capture (n, p, True)) @ bs, h) \<in> set (branch_matches t0 p0)"
        by (simp add: lifts_def)
    qed
    from e 1 2 show "\<exists>c q. e = (c, q, False) \<and> names_ok (fst ` set (ctx ?S)) c \<and>
           lifts t0 p0 (ctx ?S) c q" by blast
  qed
  from stack_inv_push [OF invS dS this] new cS show ?thesis by simp
qed


lemma find_loop_sound:
  "stack_inv t0 p0 st \<Longrightarrow> ps = ctx st \<Longrightarrow> find_loop st ps = (Some h, ps') \<Longrightarrow>
   (ps', h) \<in> set (branch_matches t0 p0)"
proof (induction st ps rule: find_loop.induct)
  case (1 ps)
  then show ?case by (simp add: find_loop.simps)
next
  case (2 n p v st ps)
  note inv = "2.prems"(1) and ps = "2.prems"(2) and res = "2.prems"(3)
  from inv have inv_st: "stack_inv t0 p0 st" by simp
  show ?case
  proof (cases v)
    case True
    have "(if take 1 (path n) = '':'' then AList.delete (drop 1 (path n)) ps else ps) = ctx st"
    proof (cases "take 1 (path n) = '':''")
      case par: True
      from inv True par have "drop 1 (path n) \<notin> fst ` set (ctx st)"
        by (simp add: ctx_Cons)
      with par True show ?thesis
        by (simp add: ps ctx_Cons delete_last)
    next
      case False
      with True show ?thesis by (simp add: ps ctx_Cons)
    qed
    moreover from res True
    have "find_loop st (if take 1 (path n) = '':'' then AList.delete (drop 1 (path n)) ps else ps)
        = (Some h, ps')"
      by (simp add: find_loop.simps)
    ultimately show ?thesis
      using "2.IH"(1) [OF True inv_st] by simp
  next
    case False
    with inv ps have ok: "names_ok (fst ` set (ctx st)) n"
      and lift: "lifts t0 p0 (ctx st) n p" and ps_st: "ps = ctx st"
      by simp_all
    show ?thesis
    proof (cases "take 1 (path n) = ''*''")
      case wild: True
      from res False wild have h: "handler n = Some h"
        and ps': "ps' = (if 1 < length (path n) then AList.update (drop 1 (path n)) p ps else ps)"
        by (simp_all add: find_loop.simps)
      have "ps' = ctx st @ (if 1 < length (path n) then [(drop 1 (path n), p)] else [])"
      proof (cases "1 < length (path n)")
        case True
        with wild have "capture_name n = Some (drop 1 (path n))" by simp
        from names_ok_fresh [OF ok this] True show ?thesis
          by (simp add: ps' ps_st update_fresh)
      next
        case False
        then show ?thesis by (simp add: ps' ps_st)
      qed
      moreover have "(if 1 < length (path n) then [(drop 1 (path n), p)] else [], h)
          \<in> set (branch_matches n p)"
        using wild h by (simp add: branch_matches.simps)
      moreover from this lift
      have "(ctx st @ (if 1 < length (path n) then [(drop 1 (path n), p)] else []), h)
          \<in> set (branch_matches t0 p0)"
        unfolding lifts_def by blast
      ultimately show ?thesis by simp
    next
      case nw: False
      show ?thesis
      proof (cases "take 1 (path n) = '':''")
        case par: True
        obtain cp np where sp: "splitFromFirstSlash p = (cp, np)" by (cases "splitFromFirstSlash p")
        from par have "capture_name n = Some (drop 1 (path n))" by simp
        from names_ok_fresh [OF ok this]
        have upd: "AList.update (drop 1 (path n)) cp ps = ctx st @ [(drop 1 (path n), cp)]"
          by (simp add: ps_st update_fresh)
        have cap: "entry_capture (n, p, True) = [(drop 1 (path n), cp)]"
          using par sp by simp
        show ?thesis
        proof (cases "np = []")
          case True
          with res False nw par sp have h: "handler n = Some h"
            and ps': "ps' = AList.update (drop 1 (path n)) cp ps"
            by (simp_all add: find_loop.simps)
          have "([(drop 1 (path n), cp)], h) \<in> set (branch_matches n p)"
            using nw par sp True h by (simp add: branch_matches.simps)
          with lift have "(ctx st @ [(drop 1 (path n), cp)], h) \<in> set (branch_matches t0 p0)"
            unfolding lifts_def by blast
          then show ?thesis unfolding ps' upd .
        next
          case ne: False
          have D: "(entry_capture (n, p, True) @ bs, h') \<in> set (branch_matches n p)"
            if "c \<in> set (candidates n np)" and "(bs, h') \<in> set (branch_matches c np)"
            for c bs h'
            using that nw par sp ne
            by (subst branch_matches.simps) (auto simp: cap simp del: entry_capture.simps)
          have "stack_inv t0 p0 (push_children n np ((n, p, True) # st)) \<and>
              ctx (push_children n np ((n, p, True) # st)) = ctx st @ entry_capture (n, p, True)"
            by (rule descend_inv [OF inv_st ok lift nw]) (rule D)
          then           have 1: "stack_inv t0 p0 (push_children n np ((n, p, True) # st))"
            and c: "ctx (push_children n np ((n, p, True) # st))
                     = ctx st @ entry_capture (n, p, True)"
            by blast+
          have 2: "AList.update (drop 1 (path n)) cp ps
                     = ctx (push_children n np ((n, p, True) # st))"
            by (simp only: c cap upd)
          from res False nw par sp ne
          have 3: "find_loop (push_children n np ((n, p, True) # st))
                     (AList.update (drop 1 (path n)) cp ps) = (Some h, ps')"
            by (simp add: find_loop.simps)
          from "2.IH"(2) [OF False nw par sp [symmetric] ne 1 2 3] show ?thesis .
        qed
      next
        case np: False
        have cap: "entry_capture (n, p, True) = []"
          using np by simp
        show ?thesis
        proof (cases "path n = p")
          case eq: True
          show ?thesis
          proof (cases "handler n")
            case None
            show ?thesis
            proof (cases "map_of (children n) ''*'' \<noteq> None")
              case True
              have D: "(entry_capture (n, p, True) @ bs, h') \<in> set (branch_matches n p)"
                if "c \<in> set (candidates n [])" and "(bs, h') \<in> set (branch_matches c [])"
                for c bs h'
                using that nw np eq None
                by (subst branch_matches.simps) (auto simp: cap simp del: entry_capture.simps)
              have "stack_inv t0 p0 (push_children n [] ((n, p, True) # st)) \<and>
                  ctx (push_children n [] ((n, p, True) # st)) = ctx st @ entry_capture (n, p, True)"
                by (rule descend_inv [OF inv_st ok lift nw]) (rule D)
              then               have 1: "stack_inv t0 p0 (push_children n [] ((n, p, True) # st))"
                and c: "ctx (push_children n [] ((n, p, True) # st))
                         = ctx st @ entry_capture (n, p, True)"
                by blast+
              have 2: "ps = ctx (push_children n [] ((n, p, True) # st))"
                by (simp only: c cap ps_st append_Nil2)
              from res False nw np eq None True
              have 3: "find_loop (push_children n [] ((n, p, True) # st)) ps = (Some h, ps')"
                by (simp add: find_loop.simps)
              from "2.IH"(3) [OF False nw np eq None True 1 2 3] show ?thesis .
            next
              case no: False
              from res \<open>\<not> v\<close> nw np eq None no
              have 3: "find_loop st ps = (Some h, ps')"
                by (simp add: find_loop.simps)
              from "2.IH"(4) [OF \<open>\<not> v\<close> nw np eq None no inv_st ps_st 3] show ?thesis .
            qed
          next
            case (Some h')
            with res False nw np eq have "h' = h" "ps' = ps"
              by (simp_all add: find_loop.simps)
            moreover have "([], h') \<in> set (branch_matches n p)"
              using nw np eq Some by (simp add: branch_matches.simps)
            ultimately show ?thesis
              using lift ps_st unfolding lifts_def by fastforce
          qed
        next
          case neq: False
          show ?thesis
          proof (cases "longestCommonPrefix (path n) p \<noteq> length (path n)")
            case True
            from res False nw np neq True
            have 3: "find_loop st ps = (Some h, ps')"
              by (simp add: find_loop.simps)
            from "2.IH"(5) [OF False nw np neq True inv_st ps_st 3] show ?thesis .
          next
            case full: False
            then have len: "longestCommonPrefix (path n) p = length (path n)" by simp
            then have pre: "take (length (path n)) p = path n" by (simp add: lcp_full)
            let ?np = "drop (longestCommonPrefix (path n) p) p"
            have D: "(entry_capture (n, p, True) @ bs, h') \<in> set (branch_matches n p)"
              if "c \<in> set (candidates n ?np)" and "(bs, h') \<in> set (branch_matches c ?np)"
              for c bs h'
              using that nw np neq pre len
              by (subst branch_matches.simps) (auto simp: cap simp del: entry_capture.simps)
            have "stack_inv t0 p0 (push_children n ?np ((n, p, True) # st)) \<and>
                ctx (push_children n ?np ((n, p, True) # st)) = ctx st @ entry_capture (n, p, True)"
              by (rule descend_inv [OF inv_st ok lift nw]) (rule D)
            then             have 1: "stack_inv t0 p0 (push_children n ?np ((n, p, True) # st))"
              and c: "ctx (push_children n ?np ((n, p, True) # st))
                       = ctx st @ entry_capture (n, p, True)"
              by blast+
            have 2: "ps = ctx (push_children n ?np ((n, p, True) # st))"
              by (simp only: c cap ps_st append_Nil2)
            from res False nw np neq full
            have 3: "find_loop (push_children n ?np ((n, p, True) # st)) ps = (Some h, ps')"
              by (simp add: find_loop.simps)
            from "2.IH"(6) [OF False nw np neq full 1 2 3] show ?thesis .
          qed
        qed
      qed
    qed
  qed
qed

section \<open>Captures of a match\<close>

text \<open>
  The tree of \<open>/users/:id\<close> and \<open>/users/new\<close>: the static child is tried first, the
  parameter child after it.
\<close>

definition users_tree :: "string radix" where
  "users_tree =
     Radix ''/users/''
       [('':'', Radix '':id'' [] (Some ''show'')), (''n'', Radix ''new'' [] (Some ''create''))]
       None"

lemma users_tree_built:
  "adds empty_radix [(''/users/:id'', ''show''), (''/users/new'', ''create'')] = Inr users_tree"
  by (simp add: add_eval users_tree_def)

lemma users_tree_find:
  "find_radix users_tree ''/users/new'' = (Some ''create'', [])"
  "find_radix users_tree ''/users/42'' = (Some ''show'', [(''id'', ''42'')])"
  by (simp_all add: find_eval users_tree_def)

text \<open>
  Claim C3, as stated, fails. Leaving a parameter node deletes the node's name from the
  bindings, and with it the binding a node further up made under the same name. With
  \<open>/:a/:a/x\<close> and \<open>/:a/*w\<close> registered, the path \<open>/1/2/y\<close> matches \<open>/:a/*w\<close> with the
  captures \<open>a = 1\<close> and \<open>w = 2/y\<close>, and \<open>find\<close> returns \<open>w\<close> alone.
\<close>

theorem shadowed_capture_is_lost:
  "\<exists>t. adds empty_radix [(''/:a/:a/x'', ''h1''), (''/:a/*w'', ''h2'')] = Inr t \<and>
     find_radix t ''/1/2/y'' = (Some ''h2'', [(''w'', ''2/y'')]) \<and>
     branch_matches t ''/1/2/y'' = [([(''a'', ''1''), (''w'', ''2/y'')], ''h2'')]"
proof -
  let ?t = "Radix ''/''
   [('':'', Radix '':a''
      [(''/'', Radix ''/''
         [('':'', Radix '':a'' [(''/'', Radix ''/x'' [] (Some ''h1''))] None),
          (''*'', Radix ''*w'' [] (Some ''h2''))] None)] None)] None"
  have a: "adds empty_radix [(''/:a/:a/x'', ''h1''), (''/:a/*w'', ''h2'')] = Inr ?t"
    by (simp add: add_eval)
  have f: "find_radix ?t ''/1/2/y'' = (Some ''h2'', [(''w'', ''2/y'')])"
    by (simp add: find_eval)
  have b: "branch_matches ?t ''/1/2/y'' = [([(''a'', ''1''), (''w'', ''2/y'')], ''h2'')]"
    by (simp add: spec_eval)
  from a f b show ?thesis by simp
qed

text \<open>
  Claim C3, amended. Leaving a visited parameter node deletes the binding of its name
  before the next entry of the stack is tried. In every tree in which no name of a
  parameter or wildcard node occurs twice on one branch, the bindings returned with a
  handler are exactly the captures, in order from the root, of a branch of the tree that
  matches the path and ends at that handler.
\<close>

theorem captures_of_matched_branch:
  "find_loop ((n, q, True) # st) bs =
     find_loop st (if take 1 (path n) = '':'' then AList.delete (drop 1 (path n)) bs else bs) \<and>
   (names_ok {} t \<and> find_radix t p = (Some h, ps) \<longrightarrow> (ps, h) \<in> set (branch_matches t p))"
proof (intro conjI impI)
  show "find_loop ((n, q, True) # st) bs =
     find_loop st (if take 1 (path n) = '':'' then AList.delete (drop 1 (path n)) bs else bs)"
    by (simp add: find_loop.simps)
next
  assume a: "names_ok {} t \<and> find_radix t p = (Some h, ps)"
  have "stack_inv t p [(t, p, False)]"
    using a by (simp add: ctx_def lifts_def)
  moreover have "[] = ctx [(t, p, False)]"
    by (simp add: ctx_def)
  ultimately show "(ps, h) \<in> set (branch_matches t p)"
    using a find_loop_sound [of t p "[(t, p, False)]" "[]" h ps]
    by (simp add: find_radix_def)
qed

theorem captures_of_matched_branch_witness:
  "names_ok {} users_tree \<and>
   find_radix users_tree ''/users/42'' = (Some ''show'', [(''id'', ''42'')]) \<and>
   ([(''id'', ''42'')], ''show'') \<in> set (branch_matches users_tree ''/users/42'')"
proof -
  have 1: "names_ok {} users_tree"
    by (simp add: users_tree_def)
  from captures_of_matched_branch
    [of users_tree "[]" "[]" "[]" users_tree "''/users/42''" "''show''" "[(''id'', ''42'')]"]
  have "names_ok {} users_tree \<and>
      find_radix users_tree ''/users/42'' = (Some ''show'', [(''id'', ''42'')]) \<longrightarrow>
      ([(''id'', ''42'')], ''show'') \<in> set (branch_matches users_tree ''/users/42'')"
    by (rule conjunct2)
  with 1 users_tree_find(2) show ?thesis by blast
qed

section \<open>Precedence and backtracking\<close>

text \<open>
  Claim C1 says that the search goes on with the parameter child, and then the wildcard
  child, whenever the branch tried before them reaches no handler. The source does so
  when a static node fails (lines 152-158 and 164-166), and stops the whole search when a
  parameter node consumes the rest of the path and has no handler (lines 147-150 and
  172-175). With \<open>/u/new/:x/y\<close> and \<open>/u/:id/:k\<close> registered, the path \<open>/u/new/5\<close>
  matches the second pattern only, and \<open>find\<close> returns no handler; with
  \<open>/users/:id/edit\<close> and \<open>/users/*rest\<close> registered, the same happens to \<open>/users/42\<close>.
\<close>

theorem find_stops_at_unbound_node:
  "(\<exists>t. adds empty_radix [(''/u/new/:x/y'', h1), (''/u/:id/:k'', h2)] = Inr t \<and>
      branch_matches t ''/u/new/5'' = [([(''id'', ''new''), (''k'', ''5'')], h2)] \<and>
      find_radix t ''/u/new/5'' = (None, [(''x'', ''5'')])) \<and>
   (\<exists>t. adds empty_radix [(''/users/:id/edit'', h1), (''/users/*rest'', h2)] = Inr t \<and>
      branch_matches t ''/users/42'' = [([(''rest'', ''42'')], h2)] \<and>
      find_radix t ''/users/42'' = (None, [(''id'', ''42'')]))"
proof -
  let ?t = "Radix ''/u/''
   [(''n'', Radix ''new/'' [('':'', Radix '':x'' [(''/'', Radix ''/y'' [] (Some h1))] None)] None),
    ('':'', Radix '':id'' [(''/'', Radix ''/'' [('':'', Radix '':k'' [] (Some h2))] None)] None)]
   None"
  let ?u = "Radix ''/users/''
   [('':'', Radix '':id'' [(''/'', Radix ''/edit'' [] (Some h1))] None),
    (''*'', Radix ''*rest'' [] (Some h2))] None"
  have "adds empty_radix [(''/u/new/:x/y'', h1), (''/u/:id/:k'', h2)] = Inr ?t"
    by (simp add: add_eval)
  moreover have "branch_matches ?t ''/u/new/5'' = [([(''id'', ''new''), (''k'', ''5'')], h2)]"
    by (simp add: spec_eval)
  moreover have "find_radix ?t ''/u/new/5'' = (None, [(''x'', ''5'')])"
    by (simp add: find_eval)
  moreover have "adds empty_radix [(''/users/:id/edit'', h1), (''/users/*rest'', h2)] = Inr ?u"
    by (simp add: add_eval)
  moreover have "branch_matches ?u ''/users/42'' = [([(''rest'', ''42'')], h2)]"
    by (simp add: spec_eval)
  moreover have "find_radix ?u ''/users/42'' = (None, [(''id'', ''42'')])"
    by (simp add: find_eval)
  ultimately show ?thesis by simp
qed

section \<open>Registration without a handler\<close>

text \<open>
  The index and the node of one round of the loop of \<open>merge\<close>, named so that the
  loop can be unfolded one round at a time.
\<close>

definition merge_index :: "'h radix \<Rightarrow> string \<Rightarrow> nat" where
  "merge_index n pth = longestCommonPrefix pth (path n)"

definition merge_node :: "'h radix \<Rightarrow> string \<Rightarrow> 'h radix" where
  "merge_node n pth =
     (if merge_index n pth < length (path n) then split_node n (merge_index n pth) else n)"

lemma merge_loop_unfold:
  "merge_loop n pth h =
     (if merge_index n pth < length pth then
        (case map_of (children (merge_node n pth)) (take 1 (drop (merge_index n pth) pth)) of
           Some c \<Rightarrow>
             (case merge_loop c (drop (merge_index n pth) pth) h of
                Inl e \<Rightarrow> Inl e
              | Inr (fs, d) \<Rightarrow>
                  Inr (fs @ [(merge_node n pth, take 1 (drop (merge_index n pth) pth))], d))
         | None \<Rightarrow>
             Inr ([(merge_node n pth, take 1 (drop (merge_index n pth) pth))],
                  Radix (drop (merge_index n pth) pth) [] h))
      else if h \<noteq> None then
        (if handler (merge_node n pth) \<noteq> None then Inl DuplicateRouteError
         else Inr ([], Radix (path (merge_node n pth)) (children (merge_node n pth)) h))
      else Inr ([], merge_node n pth))"
  unfolding merge_node_def merge_index_def
  by (subst merge_loop.simps) (simp only: Let_def)

lemma merge_loop_induct [case_names step]:
  fixes P :: "'h radix \<Rightarrow> string \<Rightarrow> 'h option \<Rightarrow> bool"
  assumes "\<And>n pth h.
     (\<And>c. merge_index n pth < length pth \<Longrightarrow>
        map_of (children (merge_node n pth)) (take 1 (drop (merge_index n pth) pth)) = Some c \<Longrightarrow>
        P c (drop (merge_index n pth) pth) h) \<Longrightarrow> P n pth h"
  shows "P n pth h"
proof (induction n pth h rule: merge_loop.induct)
  case (1 n pth h)
  show ?case
  proof (rule assms)
    fix c
    assume "merge_index n pth < length pth"
      and "map_of (children (merge_node n pth)) (take 1 (drop (merge_index n pth) pth)) = Some c"
    then show "P c (drop (merge_index n pth) pth) h"
      using "1.IH" [OF refl refl, of c] unfolding merge_node_def merge_index_def by simp
  qed
qed

lemma merge_loop_None_ok: "\<exists>r. merge_loop n pth None = Inr r"
proof (induction n pth "None :: 'a option" rule: merge_loop_induct)
  case (step n pth)
  show ?case
  proof (cases "merge_index n pth < length pth")
    case False
    then show ?thesis by (subst merge_loop_unfold) simp
  next
    case True
    show ?thesis
    proof (cases "map_of (children (merge_node n pth)) (take 1 (drop (merge_index n pth) pth))")
      case None
      with True show ?thesis by (subst merge_loop_unfold) simp
    next
      case (Some c)
      from step [OF True Some]
      obtain fs d where "merge_loop c (drop (merge_index n pth) pth) None = Inr (fs, d)"
        by fastforce
      with True Some show ?thesis by (subst merge_loop_unfold) simp
    qed
  qed
qed

lemma merge_None_ok: "pth \<noteq> [] \<Longrightarrow> \<exists>r. merge n pth None = Inr r"
  using merge_loop_None_ok [of n pth] by (auto simp: merge_def)

lemma insert_radix_None_ok:
  assumes "pth \<noteq> []"
  shows "\<exists>r. insert_radix n pth None = Inr r"
proof (cases "map_of (children n) (take 1 pth)")
  case None
  then show ?thesis by (simp add: insert_radix_def)
next
  case (Some c)
  from merge_None_ok [OF assms, of c] obtain fs d where "merge c pth None = Inr (fs, d)"
    by fastforce
  with Some show ?thesis by (simp add: insert_radix_def)
qed

lemma isWildcard_not_slash: "isWildcard c \<Longrightarrow> c \<noteq> CHR ''/''"
  by (auto simp: isWildcard_def)

lemma scan_name_Inl: "scan_name pat i = Inl e \<Longrightarrow> e = WildcardConflictError"
proof (induction pat i rule: scan_name.induct)
  case (1 pat i)
  from "1.prems" show ?case
    by (subst (asm) scan_name.simps) (auto split: if_splits intro: "1.IH")
qed

lemma scan_name_conflict:
  "i \<le> l \<Longrightarrow> l < length pat \<Longrightarrow> isWildcard (pat ! l) \<Longrightarrow>
   \<forall>x. i \<le> x \<and> x < l \<longrightarrow> pat ! x \<noteq> CHR ''/'' \<Longrightarrow>
   scan_name pat i = Inl WildcardConflictError"
proof (induction pat i rule: scan_name.induct)
  case (1 pat i)
  show ?case
  proof (cases "i = l")
    case True
    with "1.prems" show ?thesis
      by (subst scan_name.simps) (simp add: isWildcard_not_slash)
  next
    case False
    with "1.prems" have il: "i < l" and ns: "pat ! i \<noteq> CHR ''/''" by auto
    show ?thesis
    proof (cases "isWildcard (pat ! i)")
      case True
      with il ns "1.prems" show ?thesis by (subst scan_name.simps) simp
    next
      case nw: False
      have "scan_name pat (Suc i) = Inl WildcardConflictError"
        using "1.IH" [OF _ nw] il ns "1.prems" by auto
      with il ns nw "1.prems" show ?thesis by (subst scan_name.simps) simp
    qed
  qed
qed

lemma scan_name_Inr:
  "scan_name pat i = Inr k \<Longrightarrow> i \<le> length pat \<Longrightarrow>
   k \<le> length pat \<and> (k = length pat \<or> pat ! k = CHR ''/'') \<and>
   (\<forall>x. i \<le> x \<and> x < k \<longrightarrow> \<not> isWildcard (pat ! x) \<and> pat ! x \<noteq> CHR ''/'')"
proof (induction pat i rule: scan_name.induct)
  case (1 pat i)
  show ?case
  proof (cases "i < length pat \<and> pat ! i \<noteq> CHR ''/''")
    case True
    with "1.prems" have nw: "\<not> isWildcard (pat ! i)" and k: "scan_name pat (Suc i) = Inr k"
      by (subst (asm) scan_name.simps, simp split: if_splits)+
    from "1.IH" [OF True nw k] True
    have "k \<le> length pat \<and> (k = length pat \<or> pat ! k = CHR ''/'') \<and>
      (\<forall>x. Suc i \<le> x \<and> x < k \<longrightarrow> \<not> isWildcard (pat ! x) \<and> pat ! x \<noteq> CHR ''/'')"
      by simp
    moreover have "x = i \<or> Suc i \<le> x" if "i \<le> x" for x
      using that by auto
    ultimately show ?thesis
      using True nw by blast
  next
    case False
    with "1.prems" have "k = i" by (subst (asm) scan_name.simps) auto
    with False "1.prems" show ?thesis by auto
  qed
qed

section \<open>Malformed patterns\<close>

text \<open>
  Two markers within one path segment: the positions \<open>k < l\<close> of the pattern hold
  markers and no \<open>/\<close> lies between them. An empty parameter name: a \<open>:\<close> at position
  \<open>k\<close> immediately followed by \<open>/\<close> or by the end of the pattern. These two predicates
  and the two below follow the wording of the specification.
\<close>

definition two_markers :: "string \<Rightarrow> nat \<Rightarrow> nat \<Rightarrow> bool" where
  "two_markers pat k l \<longleftrightarrow>
     k < l \<and> l < length pat \<and> isWildcard (pat ! k) \<and> isWildcard (pat ! l) \<and>
     (\<forall>x \<in> {Suc k..<l}. pat ! x \<noteq> CHR ''/'')"

definition empty_name :: "string \<Rightarrow> nat \<Rightarrow> bool" where
  "empty_name pat k \<longleftrightarrow>
     k < length pat \<and> pat ! k = CHR '':'' \<and> (Suc k = length pat \<or> pat ! Suc k = CHR ''/'')"

definition no_empty_name_before :: "string \<Rightarrow> nat \<Rightarrow> bool" where
  "no_empty_name_before pat k \<longleftrightarrow> (\<forall>m \<in> {0..<k}. \<not> empty_name pat m)"

definition no_two_markers_upto :: "string \<Rightarrow> nat \<Rightarrow> bool" where
  "no_two_markers_upto pat k \<longleftrightarrow> (\<forall>b \<in> {0..k}. \<forall>a \<in> {0..<b}. \<not> two_markers pat a b)"

lemmas bounded_eval = atLeastLessThan_upt atLeastAtMost_upt upt_conv_Cons

lemma slice_nonempty: "a < b \<Longrightarrow> a < length s \<Longrightarrow> slice a b s \<noteq> []"
  by (simp add: slice_def)

lemma add_loop_skip:
  "i < length pat \<Longrightarrow> \<not> isWildcard (pat ! i) \<Longrightarrow>
   add_loop pat h i j n = add_loop pat h (Suc i) j n"
  by (subst add_loop.simps) simp

lemma add_loop_static_ok:
  assumes "i < length pat" and "j \<le> i"
  shows "\<exists>fs1 n1. (if j \<noteq> i then insert_radix n (slice j i pat) None else Inr ([], n))
           = Inr (fs1, n1)"
proof (cases "j = i")
  case True
  then show ?thesis by simp
next
  case False
  with assms have "slice j i pat \<noteq> []" by (simp add: slice_nonempty)
  from insert_radix_None_ok [OF this, of n] False show ?thesis by auto
qed

lemma add_loop_marker_scan_error:
  assumes "i < length pat" and "isWildcard (pat ! i)" and "j \<le> i"
    and "scan_name pat (Suc i) = Inl e"
  shows "add_loop pat h i j n = Inl e"
proof -
  from add_loop_static_ok [OF assms(1,3)] obtain fs1 n1 where
    "(if j \<noteq> i then insert_radix n (slice j i pat) None else Inr ([], n)) = Inr (fs1, n1)"
    by blast
  with assms show ?thesis by (subst add_loop.simps) simp
qed

lemma add_loop_marker_empty:
  assumes "i < length pat" and "pat ! i = CHR '':''" and "j \<le> i"
    and "scan_name pat (Suc i) = Inr (Suc i)"
  shows "add_loop pat h i j n = Inl EmptyParamNameError"
proof -
  from add_loop_static_ok [OF assms(1,3)] obtain fs1 n1 where
    "(if j \<noteq> i then insert_radix n (slice j i pat) None else Inr ([], n)) = Inr (fs1, n1)"
    by blast
  with assms show ?thesis by (subst add_loop.simps) (simp add: isWildcard_def)
qed

lemma add_loop_marker_next_error:
  assumes "i < length pat" and "isWildcard (pat ! i)" and "j \<le> i"
    and "scan_name pat (Suc i) = Inr i2"
    and "\<not> (pat ! i = CHR '':'' \<and> i2 = Suc i)"
    and "\<And>n2. add_loop pat h (Suc i2) i2 n2 = Inl e"
  shows "add_loop pat h i j n = Inl e"
proof -
  from add_loop_static_ok [OF assms(1,3)] obtain fs1 n1 where
    1: "(if j \<noteq> i then insert_radix n (slice j i pat) None else Inr ([], n)) = Inr (fs1, n1)"
    by blast
  from scan_name_ge [OF assms(4)] have "i < i2" by simp
  with assms(1) have "slice i i2 pat \<noteq> []" by (simp add: slice_nonempty)
  from insert_radix_None_ok [OF this, of n1] obtain fs2 n2 where
    2: "insert_radix n1 (slice i i2 pat) None = Inr (fs2, n2)" by auto
  from \<open>i < i2\<close> assms(5) have 3: "\<not> (pat ! i = CHR '':'' \<and> i2 - i = 1)" by auto
  show ?thesis
    by (subst add_loop.simps) (simp add: assms(1,2,4,6) 1 2 3 del: One_nat_def)
qed

lemma add_loop_conflict:
  assumes tm: "two_markers pat k l" and ne: "\<forall>m<k. \<not> empty_name pat m"
  shows "i \<le> k \<Longrightarrow> j \<le> i \<Longrightarrow> add_loop pat h i j n = Inl WildcardConflictError"
proof (induction "k - i" arbitrary: i j n rule: less_induct)
  case less
  from tm have kl: "k < l" "l < length pat" and wk: "isWildcard (pat ! k)"
    and wl: "isWildcard (pat ! l)" and ns: "\<forall>x. k < x \<and> x < l \<longrightarrow> pat ! x \<noteq> CHR ''/''"
    by (auto simp: two_markers_def)
  from less.prems kl have i: "i < length pat" by simp
  show ?case
  proof (cases "isWildcard (pat ! i)")
    case False
    with wk less.prems have "i < k" by (cases "i = k") auto
    have "add_loop pat h i j n = add_loop pat h (Suc i) j n"
      by (rule add_loop_skip [OF i False])
    also have "\<dots> = Inl WildcardConflictError"
      using less.hyps [of "Suc i" j n] \<open>i < k\<close> less.prems by simp
    finally show ?thesis .
  next
    case True
    show ?thesis
    proof (cases "scan_name pat (Suc i)")
      case (Inl e)
      from scan_name_Inl [OF Inl] Inl
      have "scan_name pat (Suc i) = Inl WildcardConflictError" by simp
      then show ?thesis by (rule add_loop_marker_scan_error [OF i True less.prems(2)])
    next
      case (Inr i2)
      from scan_name_Inr [OF Inr] i
      have i2: "i2 \<le> length pat" "i2 = length pat \<or> pat ! i2 = CHR ''/''"
        and nm: "\<forall>x. Suc i \<le> x \<and> x < i2 \<longrightarrow> \<not> isWildcard (pat ! x) \<and> pat ! x \<noteq> CHR ''/''"
        by auto
      from scan_name_ge [OF Inr] have ii2: "i < i2" by simp
      have "i \<noteq> k"
      proof
        assume "i = k"
        with kl ns have "scan_name pat (Suc i) = Inl WildcardConflictError"
          by (intro scan_name_conflict [of _ l]) (auto simp: wl)
        with Inr show False by simp
      qed
      with less.prems have ik: "i < k" by simp
      have "\<not> k < i2" using nm ik wk by auto
      moreover have "k \<noteq> i2" using i2 wk kl by (auto dest: isWildcard_not_slash)
      ultimately have k2: "Suc i2 \<le> k" by simp
      have ne': "\<not> (pat ! i = CHR '':'' \<and> i2 = Suc i)"
        using ne ik i i2 by (auto simp: empty_name_def)
      have rec: "add_loop pat h (Suc i2) i2 n2 = Inl WildcardConflictError" for n2
        using less.hyps [of "Suc i2" i2 n2] k2 ii2 by simp
      show ?thesis
        by (rule add_loop_marker_next_error [OF i True less.prems(2) Inr ne' rec])
    qed
  qed
qed

lemma takeWhile_length_le:
  "k < length xs \<Longrightarrow> \<not> P (xs ! k) \<Longrightarrow> length (takeWhile P xs) \<le> k"
proof (induction xs arbitrary: k)
  case Nil
  then show ?case by simp
next
  case (Cons x xs)
  then show ?case by (cases k) auto
qed

lemma skip_static_le: "k < length pat \<Longrightarrow> isWildcard (pat ! k) \<Longrightarrow> skip_static pat \<le> k"
  unfolding skip_static_def by (rule takeWhile_length_le) simp_all

lemma skip_static_pos: "take 1 pat = ''/'' \<Longrightarrow> 0 < skip_static pat"
  by (cases pat) (auto simp: skip_static_def isWildcard_def)

lemma add_error:
  assumes "take 1 pat = ''/''"
    and "\<And>n1. add_loop pat h (skip_static pat) (skip_static pat) n1 = Inl e"
  shows "add n pat h = Inl e"
proof -
  from skip_static_pos [OF assms(1)] assms(1) have "take (skip_static pat) pat \<noteq> []"
    by (cases pat) auto
  from merge_None_ok [OF this, of n] obtain fs n1 where
    "merge n (take (skip_static pat) pat) None = Inr (fs, n1)" by auto
  with assms(2) show ?thesis by (simp add: add_def)
qed

lemma scan_name_Inl_marker:
  "scan_name pat i = Inl e \<Longrightarrow>
   \<exists>l\<ge>i. l < length pat \<and> isWildcard (pat ! l) \<and> (\<forall>x. i \<le> x \<and> x < l \<longrightarrow> pat ! x \<noteq> CHR ''/'')"
proof (induction pat i rule: scan_name.induct)
  case (1 pat i)
  from "1.prems" have i: "i < length pat" "pat ! i \<noteq> CHR ''/''"
    by (subst (asm) scan_name.simps, simp split: if_splits)+
  show ?case
  proof (cases "isWildcard (pat ! i)")
    case True
    with i show ?thesis by (intro exI [of _ i]) auto
  next
    case False
    with "1.prems" i have "scan_name pat (Suc i) = Inl e"
      by (subst (asm) scan_name.simps) simp
    from "1.IH" [OF _ False this] i obtain l where l: "Suc i \<le> l" "l < length pat"
      "isWildcard (pat ! l)" "\<forall>x. Suc i \<le> x \<and> x < l \<longrightarrow> pat ! x \<noteq> CHR ''/''"
      by auto
    have "pat ! x \<noteq> CHR ''/''" if "i \<le> x" "x < l" for x
      using that l(4) i(2) by (cases "x = i") auto
    with l show ?thesis by (intro exI [of _ l]) auto
  qed
qed

lemma scan_name_stop:
  "i = length pat \<or> pat ! i = CHR ''/'' \<Longrightarrow> scan_name pat i = Inr i"
  by (subst scan_name.simps) auto

lemma no_two_markers_uptoD:
  assumes "no_two_markers_upto pat k" and "two_markers pat a b"
  shows "k < b"
proof (rule ccontr)
  assume "\<not> k < b"
  then have "b \<in> {0..k}" by simp
  moreover from assms(2) have "a \<in> {0..<b}" by (simp add: two_markers_def)
  ultimately show False using assms unfolding no_two_markers_upto_def by blast
qed

lemma add_loop_empty:
  assumes en: "empty_name pat k" and nc: "no_two_markers_upto pat k"
  shows "i \<le> k \<Longrightarrow> j \<le> i \<Longrightarrow> add_loop pat h i j n = Inl EmptyParamNameError"
proof (induction "k - i" arbitrary: i j n rule: less_induct)
  case less
  from en have k: "k < length pat" "pat ! k = CHR '':''"
    and stop: "Suc k = length pat \<or> pat ! Suc k = CHR ''/''"
    by (auto simp: empty_name_def)
  from k have wk: "isWildcard (pat ! k)" by (simp add: isWildcard_def)
  from less.prems k have i: "i < length pat" by simp
  show ?case
  proof (cases "isWildcard (pat ! i)")
    case False
    with wk less.prems have "i < k" by (cases "i = k") auto
    have "add_loop pat h i j n = add_loop pat h (Suc i) j n"
      by (rule add_loop_skip [OF i False])
    also have "\<dots> = Inl EmptyParamNameError"
      using less.hyps [of "Suc i" j n] \<open>i < k\<close> less.prems by simp
    finally show ?thesis .
  next
    case True
    show ?thesis
    proof (cases "i = k")
      case eq: True
      from scan_name_stop [OF stop] eq have "scan_name pat (Suc i) = Inr (Suc i)" by simp
      with i k eq less.prems show ?thesis by (intro add_loop_marker_empty) simp_all
    next
      case False
      with less.prems have ik: "i < k" by simp
      show ?thesis
      proof (cases "scan_name pat (Suc i)")
        case (Inl e)
        from scan_name_Inl_marker [OF Inl] obtain l where l: "Suc i \<le> l" "l < length pat"
          "isWildcard (pat ! l)" "\<forall>x. Suc i \<le> x \<and> x < l \<longrightarrow> pat ! x \<noteq> CHR ''/''"
          by auto
        then have "two_markers pat i l"
          using True by (auto simp: two_markers_def)
        with nc have "k < l" by (rule no_two_markers_uptoD)
        with l ik wk True k have "two_markers pat i k"
          by (auto simp: two_markers_def)
        with nc have "k < k" by (rule no_two_markers_uptoD)
        then show ?thesis by simp
      next
        case (Inr i2)
        from scan_name_Inr [OF Inr] i
        have i2: "i2 \<le> length pat" "i2 = length pat \<or> pat ! i2 = CHR ''/''"
          and nm: "\<forall>x. Suc i \<le> x \<and> x < i2 \<longrightarrow> \<not> isWildcard (pat ! x) \<and> pat ! x \<noteq> CHR ''/''"
          by auto
        from scan_name_ge [OF Inr] have ii2: "i < i2" by simp
        have "\<not> k < i2" using nm ik wk by auto
        moreover have "k \<noteq> i2" using i2 wk k by (auto dest: isWildcard_not_slash)
        ultimately have k2: "Suc i2 \<le> k" by simp
        show ?thesis
        proof (cases "pat ! i = CHR '':'' \<and> i2 = Suc i")
          case emp: True
          with Inr i less.prems show ?thesis by (intro add_loop_marker_empty) simp_all
        next
          case ne': False
          have rec: "add_loop pat h (Suc i2) i2 n2 = Inl EmptyParamNameError" for n2
            using less.hyps [of "Suc i2" i2 n2] k2 ii2 by simp
          show ?thesis
            by (rule add_loop_marker_next_error [OF i True less.prems(2) Inr ne' rec])
        qed
      qed
    qed
  qed
qed

text \<open>
  Claim C9, as stated, fails: \<open>add\<close> raises the error of the first malformed segment
  it comes to. In \<open>/:/a*x*y\<close> the last segment holds two markers, and the error is the
  one of the empty name in the first segment.
\<close>

theorem earlier_empty_name_wins:
  "two_markers ''/:/a*x*y'' 4 6 \<and>
   router_add empty_router (mk_route ''GET'' ''/:/a*x*y'' ''h'') = Inl EmptyParamNameError"
proof -
  have "two_markers ''/:/a*x*y'' 4 6"
    by (simp add: two_markers_def isWildcard_def bounded_eval del: set_upt)
  moreover have "add empty_radix ''/:/a*x*y'' ''h'' = Inl EmptyParamNameError"
    by (simp add: add_eval)
  ultimately show ?thesis by (simp add: router_eval)
qed

text \<open>
  Claim C9, amended. For every pattern that starts with \<open>/\<close> and holds two markers
  within one path segment, with no \<open>:\<close> before them that is immediately followed by
  \<open>/\<close> or the end, \<open>add\<close> raises the wildcard-conflict error, on every tree; and
  \<open>add("GET", "/a/*x*y", h)\<close> fails with this error.
\<close>

theorem two_markers_in_segment_rejected:
  "(take 1 pat = ''/'' \<and> two_markers pat k l \<and> no_empty_name_before pat k \<longrightarrow>
      add n pat h = Inl WildcardConflictError) \<and>
   router_add empty_router (mk_route ''GET'' ''/a/*x*y'' h) = Inl WildcardConflictError"
proof (intro conjI impI)
  assume a: "take 1 pat = ''/'' \<and> two_markers pat k l \<and> no_empty_name_before pat k"
  then have "skip_static pat \<le> k"
    by (auto simp: two_markers_def intro: skip_static_le)
  with a have "add_loop pat h (skip_static pat) (skip_static pat) n1 = Inl WildcardConflictError"
    for n1
    by (intro add_loop_conflict [of pat k l]) (auto simp: no_empty_name_before_def)
  with a show "add n pat h = Inl WildcardConflictError"
    by (intro add_error) auto
next
  have "add empty_radix ''/a/*x*y'' h = Inl WildcardConflictError"
    by (simp add: add_eval)
  then show "router_add empty_router (mk_route ''GET'' ''/a/*x*y'' h) = Inl WildcardConflictError"
    by (simp add: router_eval)
qed

theorem two_markers_in_segment_rejected_witness:
  "take 1 ''/u/:a:b'' = ''/'' \<and> two_markers ''/u/:a:b'' 3 5 \<and>
   no_empty_name_before ''/u/:a:b'' 3 \<and>
   add users_tree ''/u/:a:b'' ''h'' = Inl WildcardConflictError"
proof -
  have 1: "two_markers ''/u/:a:b'' 3 5"
    by (simp add: two_markers_def isWildcard_def bounded_eval del: set_upt)
  have 2: "no_empty_name_before ''/u/:a:b'' 3"
    by (simp add: no_empty_name_before_def empty_name_def bounded_eval del: set_upt)
  from two_markers_in_segment_rejected [of "''/u/:a:b''" 3 5 users_tree "''h''"]
  have "take 1 ''/u/:a:b'' = ''/'' \<and> two_markers ''/u/:a:b'' 3 5 \<and>
      no_empty_name_before ''/u/:a:b'' 3 \<longrightarrow>
      add users_tree ''/u/:a:b'' ''h'' = Inl WildcardConflictError"
    by (rule conjunct1)
  with 1 2 show ?thesis by simp
qed

text \<open>
  Claim C8, as stated, fails for the same reason: in \<open>/a:b:c/:/x\<close> the \<open>:\<close> at position
  7 is immediately followed by \<open>/\<close>, and the error is the one of the two markers in
  the segment before it.
\<close>

theorem earlier_conflict_wins:
  "empty_name ''/a:b:c/:/x'' 7 \<and>
   router_add empty_router (mk_route ''GET'' ''/a:b:c/:/x'' ''h'') = Inl WildcardConflictError"
proof -
  have "empty_name ''/a:b:c/:/x'' 7"
    by (simp add: empty_name_def)
  moreover have "add empty_radix ''/a:b:c/:/x'' ''h'' = Inl WildcardConflictError"
    by (simp add: add_eval)
  ultimately show ?thesis by (simp add: router_eval)
qed

text \<open>
  Claim C8, amended. For every pattern that starts with \<open>/\<close> and in which a \<open>:\<close> is
  immediately followed by \<open>/\<close> or by the end of the pattern, with no two markers
  within one segment up to that \<open>:\<close>, \<open>add\<close> raises the empty-parameter-name error,
  on every tree; and \<open>add("GET", "/:/x", h)\<close> fails with this error.
\<close>

theorem empty_param_name_rejected:
  "(take 1 pat = ''/'' \<and> empty_name pat k \<and> no_two_markers_upto pat k \<longrightarrow>
      add n pat h = Inl EmptyParamNameError) \<and>
   router_add empty_router (mk_route ''GET'' ''/:/x'' h) = Inl EmptyParamNameError"
proof (intro conjI impI)
  assume a: "take 1 pat = ''/'' \<and> empty_name pat k \<and> no_two_markers_upto pat k"
  then have "skip_static pat \<le> k"
    by (auto simp: empty_name_def isWildcard_def intro: skip_static_le)
  with a have "add_loop pat h (skip_static pat) (skip_static pat) n1 = Inl EmptyParamNameError"
    for n1
    by (intro add_loop_empty [of pat k]) auto
  with a show "add n pat h = Inl EmptyParamNameError"
    by (intro add_error) auto
next
  have "add empty_radix ''/:/x'' h = Inl EmptyParamNameError"
    by (simp add: add_eval)
  then show "router_add empty_router (mk_route ''GET'' ''/:/x'' h) = Inl EmptyParamNameError"
    by (simp add: router_eval)
qed

theorem empty_param_name_rejected_witness:
  "take 1 ''/users/:/x'' = ''/'' \<and> empty_name ''/users/:/x'' 7 \<and>
   no_two_markers_upto ''/users/:/x'' 7 \<and>
   add users_tree ''/users/:/x'' ''h'' = Inl EmptyParamNameError"
proof -
  have 1: "empty_name ''/users/:/x'' 7"
    by (simp add: empty_name_def)
  have 2: "no_two_markers_upto ''/users/:/x'' 7"
    by (simp add: no_two_markers_upto_def two_markers_def isWildcard_def bounded_eval
        del: set_upt)
  from empty_param_name_rejected [of "''/users/:/x''" 7 users_tree "''h''"]
  have "take 1 ''/users/:/x'' = ''/'' \<and> empty_name ''/users/:/x'' 7 \<and>
      no_two_markers_upto ''/users/:/x'' 7 \<longrightarrow>
      add users_tree ''/users/:/x'' ''h'' = Inl EmptyParamNameError"
    by (rule conjunct1)
  with 1 2 show ?thesis by simp
qed

section \<open>Wildcard nodes and their children\<close>

text \<open>
  The invariant of a tree built from the patterns \<open>P\<close>, for the node \<open>n\<close> below the
  accumulated label \<open>acc\<close>: the character \<open>*\<close> stands at the start of a label only; a node
  whose label starts with \<open>*\<close> has no children, has a handler, and its accumulated label
  is a registered pattern; every child sits under the first character of its label.
\<close>

fun tree_inv :: "string set \<Rightarrow> string \<Rightarrow> 'h radix \<Rightarrow> bool" where
  "tree_inv P acc (Radix lbl cs h) \<longleftrightarrow>
     CHR ''*'' \<notin> set (drop 1 lbl) \<and>
     (take 1 lbl = ''*'' \<longrightarrow> cs = [] \<and> h \<noteq> None \<and> acc @ lbl \<in> P) \<and>
     (\<forall>(k, c) \<in> set cs. k = take 1 (path c) \<and> path c \<noteq> [] \<and> tree_inv P (acc @ lbl) c)"

lemma tree_inv_unfold:
  "tree_inv P acc n \<longleftrightarrow>
     CHR ''*'' \<notin> set (drop 1 (path n)) \<and>
     (take 1 (path n) = ''*'' \<longrightarrow> children n = [] \<and> handler n \<noteq> None \<and> acc @ path n \<in> P) \<and>
     (\<forall>(k, c) \<in> set (children n). k = take 1 (path c) \<and> path c \<noteq> [] \<and>
        tree_inv P (acc @ path n) c)"
  by (cases n) simp

declare tree_inv.simps [simp del]

lemma tree_inv_mono: "tree_inv P acc n \<Longrightarrow> P \<subseteq> P' \<Longrightarrow> tree_inv P' acc n"
proof (induction P acc n rule: tree_inv.induct)
  case (1 P acc lbl cs h)
  from "1.prems" show ?case
    by (subst (asm) tree_inv_unfold, subst tree_inv_unfold) (auto intro: "1.IH")
qed

lemma tree_inv_child:
  assumes "tree_inv P acc n" and "map_of (children n) k = Some c"
  shows "k = take 1 (path c) \<and> path c \<noteq> [] \<and> tree_inv P (acc @ path n) c"
proof -
  from assms(2) have "(k, c) \<in> set (children n)" by (rule map_of_SomeD)
  with assms(1) show ?thesis by (subst (asm) tree_inv_unfold) auto
qed

lemma set_update_subset: "set (AList.update k v al) \<subseteq> insert (k, v) (set al)"
  by (induction al) auto

lemma tree_inv_update:
  assumes n: "tree_inv P acc n" and ns: "take 1 (path n) \<noteq> ''*''"
    and c: "tree_inv P (acc @ path n) c" "k = take 1 (path c)" "path c \<noteq> []"
  shows "tree_inv P acc (Radix (path n) (AList.update k c (children n)) (handler n))"
proof -
  have "\<forall>(k', c') \<in> set (AList.update k c (children n)).
      k' = take 1 (path c') \<and> path c' \<noteq> [] \<and> tree_inv P (acc @ path n) c'"
    using set_update_subset [of k c "children n"] n c
    by (subst (asm) tree_inv_unfold) auto
  with n ns show ?thesis
    by (subst (asm) tree_inv_unfold, subst tree_inv_unfold) simp
qed

lemma tree_inv_split:
  assumes n: "tree_inv P acc n" and ns: "take 1 (path n) \<noteq> ''*''"
    and i: "0 < i" "i < length (path n)"
  shows "tree_inv P acc (split_node n i)"
proof -
  let ?inner = "Radix (drop i (path n)) (children n) (handler n)"
  from n have star: "CHR ''*'' \<notin> set (drop 1 (path n))"
    by (subst (asm) tree_inv_unfold) simp
  from i have "set (drop i (path n)) \<subseteq> set (drop 1 (path n))"
    by (metis One_nat_def Suc_leI set_drop_subset_set_drop)
  with star have ni: "CHR ''*'' \<notin> set (drop i (path n))" by auto
  then have t1: "take 1 (drop i (path n)) \<noteq> ''*''"
    by (cases "drop i (path n)") auto
  from ni have ni2: "CHR ''*'' \<notin> set (drop 1 (drop i (path n)))"
    using in_set_dropD [of "CHR ''*''" 1 "drop i (path n)"] by blast
  have kids: "\<forall>(k, c) \<in> set (children n). k = take 1 (path c) \<and> path c \<noteq> [] \<and>
      tree_inv P ((acc @ take i (path n)) @ drop i (path n)) c"
    using n by (subst (asm) tree_inv_unfold) simp
  have "tree_inv P (acc @ take i (path n)) ?inner"
    by (subst tree_inv_unfold) (use ni2 t1 kids in simp)
  moreover have "CHR ''*'' \<notin> set (drop 1 (take i (path n)))"
    using star by (auto simp: drop_take dest: in_set_takeD)
  moreover have "take 1 (take i (path n)) \<noteq> ''*''"
    using ns i by (cases "path n") (auto simp: take_Cons' split: if_splits)
  moreover have "drop i (path n) \<noteq> []" using i by simp
  ultimately show ?thesis
    unfolding split_node_def by (subst tree_inv_unfold) simp
qed

lemma plug_append: "plug (fs @ gs) d = plug gs (plug fs d)"
  by (induction fs arbitrary: d) auto

lemma lcp_le: "longestCommonPrefix a b \<le> length a" "longestCommonPrefix a b \<le> length b"
  by (induction a b rule: longestCommonPrefix.induct) auto

lemma lcp_take: "take (longestCommonPrefix a b) a = take (longestCommonPrefix a b) b"
  by (induction a b rule: longestCommonPrefix.induct) auto

lemma lcp_pos: "a \<noteq> [] \<Longrightarrow> take 1 a = take 1 b \<Longrightarrow> 0 < longestCommonPrefix a b"
  by (cases a; cases b) auto


text \<open>
  \<open>merge\<close> and \<open>insert\<close> return a node \<open>d\<close> and the chain \<open>fs\<close> of its parents.
  \<open>resumes\<close> says what the chain promises: whatever node with the invariant is put in
  the place of \<open>d\<close>, the plugged tree has the invariant again. \<open>lands\<close> adds where \<open>d\<close>
  is: at the accumulated label \<open>whole\<close>.
\<close>

definition resumes ::
  "string set \<Rightarrow> string \<Rightarrow> 'h radix \<Rightarrow> 'h frame list \<Rightarrow> string \<Rightarrow> 'h radix \<Rightarrow> bool" where
  "resumes P acc n fs accd d \<longleftrightarrow>
     (\<forall>P' d'. P \<subseteq> P' \<and> take 1 (path d') = take 1 (path d) \<and> path d' \<noteq> [] \<and>
        tree_inv P' accd d' \<longrightarrow>
        tree_inv P' acc (plug fs d') \<and> take 1 (path (plug fs d')) = take 1 (path n) \<and>
        path (plug fs d') \<noteq> [])"

lemma resumes_Nil:
  "take 1 (path d) = take 1 (path n) \<Longrightarrow> resumes P acc n [] acc d"
  by (simp add: resumes_def)

lemma resumes_frame:
  assumes n: "tree_inv P acc n" and ns: "take 1 (path n) \<noteq> ''*''" and ne: "path n \<noteq> []"
    and k: "k = take 1 (path c)"
    and r: "resumes P (acc @ path n) c fs accd d"
  shows "resumes P acc n (fs @ [(n, k)]) accd d"
  unfolding resumes_def
proof (intro allI impI)
  fix P' and d' :: "'a radix"
  assume a: "P \<subseteq> P' \<and> take 1 (path d') = take 1 (path d) \<and> path d' \<noteq> [] \<and> tree_inv P' accd d'"
  with r have c': "tree_inv P' (acc @ path n) (plug fs d')"
    "take 1 (path (plug fs d')) = take 1 (path c)" "path (plug fs d') \<noteq> []"
    by (auto simp: resumes_def)
  from tree_inv_mono [OF n] a have "tree_inv P' acc n" by blast
  from tree_inv_update [OF this ns c'(1) _ c'(3), of k] k c'(2) ne
  show "tree_inv P' acc (plug (fs @ [(n, k)]) d') \<and>
      take 1 (path (plug (fs @ [(n, k)]) d')) = take 1 (path n) \<and>
      path (plug (fs @ [(n, k)]) d') \<noteq> []"
    by (simp add: plug_append)
qed

lemma resumes_leaf:
  assumes n: "tree_inv P acc n" and ns: "take 1 (path n) \<noteq> ''*''" and ne: "path n \<noteq> []"
    and k: "k = take 1 (path d)"
  shows "resumes P acc n [(n, k)] (acc @ path n) d"
proof -
  have "resumes P (acc @ path n) d [] (acc @ path n) d"
    by (rule resumes_Nil) simp
  from resumes_frame [OF n ns ne k this] show ?thesis by simp
qed

lemma resumes_top:
  "resumes P acc m fs accd d \<Longrightarrow> take 1 (path m) = take 1 (path n) \<Longrightarrow>
   resumes P acc n fs accd d"
  unfolding resumes_def by metis

lemma merge_node_facts:
  assumes inv: "tree_inv P acc n" and st: "CHR ''*'' \<notin> set pth" and ne: "pth \<noteq> []"
    and t1: "take 1 pth = take 1 (path n)"
  shows "tree_inv P acc (merge_node n pth)"
    and "path (merge_node n pth) = take (merge_index n pth) pth"
    and "0 < merge_index n pth"
    and "take 1 (path (merge_node n pth)) = take 1 (path n)"
    and "take 1 (path n) \<noteq> ''*''"
proof -
  let ?i = "merge_index n pth"
  show pos: "0 < ?i"
    unfolding merge_index_def by (rule lcp_pos [OF ne t1])
  from st ne t1 show ns: "take 1 (path n) \<noteq> ''*''"
    by (cases pth) auto
  have pre: "take ?i pth = take ?i (path n)"
    unfolding merge_index_def by (rule lcp_take)
  have le: "?i \<le> length (path n)"
    unfolding merge_index_def by (rule lcp_le)
  show "tree_inv P acc (merge_node n pth)"
    using inv tree_inv_split [OF inv ns pos] by (simp add: merge_node_def)
  show p: "path (merge_node n pth) = take ?i pth"
    using pre le by (simp add: merge_node_def split_node_def)
  from pos show "take 1 (path (merge_node n pth)) = take 1 (path n)"
    unfolding p pre by (cases "path n") (auto simp: take_Cons' )
qed


definition lands ::
  "string set \<Rightarrow> string \<Rightarrow> 'h radix \<Rightarrow> string \<Rightarrow> 'h frame list \<Rightarrow> 'h radix \<Rightarrow> bool" where
  "lands P acc n whole fs d \<longleftrightarrow>
     (\<exists>accd. accd @ path d = whole \<and> tree_inv P accd d \<and> path d \<noteq> [] \<and>
        take 1 (path d) \<noteq> ''*'' \<and> resumes P acc n fs accd d)"

lemma merge_loop_inv:
  "merge_loop n pth h = Inr (fs, d) \<Longrightarrow> tree_inv P acc n \<Longrightarrow> CHR ''*'' \<notin> set pth \<Longrightarrow>
   pth \<noteq> [] \<Longrightarrow> take 1 pth = take 1 (path n) \<Longrightarrow> lands P acc n (acc @ pth) fs d"
proof (induction n pth h arbitrary: fs d acc rule: merge_loop_induct)
  case (step n pth h)
  let ?i = "merge_index n pth"
  let ?n1 = "merge_node n pth"
  let ?k = "take 1 (drop ?i pth)"
  note res = step.prems(1) and inv = step.prems(2) and st = step.prems(3)
    and ne = step.prems(4) and t1 = step.prems(5)
  note f = merge_node_facts [OF inv st ne t1]
  from f(2,3) ne have ne1: "path ?n1 \<noteq> []" by (cases pth) auto
  from f(4,5) have ns1: "take 1 (path ?n1) \<noteq> ''*''" by simp
  show ?case
  proof (cases "?i < length pth")
    case True
    then have dne: "drop ?i pth \<noteq> []" by simp
    from st have dst: "CHR ''*'' \<notin> set (drop ?i pth)" by (auto dest: in_set_dropD)
    show ?thesis
    proof (cases "map_of (children ?n1) ?k")
      case None
      with res True have fs: "fs = [(?n1, ?k)]" and d: "d = Radix (drop ?i pth) [] h"
        by (subst (asm) merge_loop_unfold, simp)+
      have "tree_inv P (acc @ path ?n1) d"
        using dst dne unfolding d
        by (subst tree_inv_unfold) (cases "drop ?i pth", auto dest: in_set_dropD)
      moreover have "(acc @ path ?n1) @ path d = acc @ pth"
        by (simp add: d f(2))
      moreover have "take 1 (path d) \<noteq> ''*''"
        using dst dne by (cases "drop ?i pth") (auto simp: d)
      moreover have "resumes P acc n fs (acc @ path ?n1) d"
      proof -
        have "resumes P acc ?n1 [(?n1, ?k)] (acc @ path ?n1) d"
          by (rule resumes_leaf [OF f(1) ns1 ne1]) (simp add: d)
        then show ?thesis unfolding fs by (rule resumes_top) (rule f(4))
      qed
      ultimately show ?thesis
        using dne unfolding lands_def by (intro exI [of _ "acc @ path ?n1"]) (simp add: d)
    next
      case (Some c)
      with res True obtain fs' where rec: "merge_loop c (drop ?i pth) h = Inr (fs', d)"
        and fs: "fs = fs' @ [(?n1, ?k)]"
        by (subst (asm) merge_loop_unfold) (auto split: sum.splits)
      from tree_inv_child [OF f(1) Some]
      have c: "?k = take 1 (path c)" "path c \<noteq> []" "tree_inv P (acc @ path ?n1) c"
        by simp_all
      from step.IH [OF True Some rec c(3) dst dne c(1)]
      obtain accd where accd: "accd @ path d = (acc @ path ?n1) @ drop ?i pth"
        "tree_inv P accd d" "path d \<noteq> []" "take 1 (path d) \<noteq> ''*''"
        "resumes P (acc @ path ?n1) c fs' accd d"
        unfolding lands_def by blast
      have "resumes P acc ?n1 fs accd d"
        unfolding fs by (rule resumes_frame [OF f(1) ns1 ne1 c(1) accd(5)])
      then have "resumes P acc n fs accd d"
        by (rule resumes_top) (rule f(4))
      moreover from accd(1) have "accd @ path d = acc @ pth"
        by (simp add: f(2))
      ultimately show ?thesis
        using accd(2-4) unfolding lands_def by blast
    qed
  next
    case False
    with f(2) lcp_le(1) [of pth "path n"] have p1: "path ?n1 = pth"
      by (simp add: merge_index_def)
    from res False have d: "path d = path ?n1" "children d = children ?n1" and fs: "fs = []"
      by (subst (asm) merge_loop_unfold, auto split: if_splits)+
    have "tree_inv P acc d"
      using f(1) ns1 by (subst (asm) tree_inv_unfold, subst tree_inv_unfold) (simp add: d)
    moreover have "resumes P acc n fs acc d"
      unfolding fs by (rule resumes_Nil) (use f(4) in \<open>simp add: d\<close>)
    ultimately show ?thesis
      using ne1 ns1 unfolding lands_def by (intro exI [of _ acc]) (simp add: d p1)
  qed
qed


lemma landsI:
  "accd @ path d = whole \<Longrightarrow> tree_inv P accd d \<Longrightarrow> path d \<noteq> [] \<Longrightarrow>
   take 1 (path d) \<noteq> ''*'' \<Longrightarrow> resumes P acc n fs accd d \<Longrightarrow> lands P acc n whole fs d"
  unfolding lands_def by blast

lemma leaf_inv:
  "CHR ''*'' \<notin> set pth \<Longrightarrow> tree_inv P acc (Radix pth [] h)"
  by (subst tree_inv_unfold) (cases pth, auto dest: in_set_dropD)

lemma insert_radix_inv:
  assumes res: "insert_radix n pth h = Inr (fs, d)"
    and inv: "tree_inv P acc n" and ns: "take 1 (path n) \<noteq> ''*''" and nn: "path n \<noteq> []"
    and st: "CHR ''*'' \<notin> set pth" and ne: "pth \<noteq> []"
  shows "lands P acc n (acc @ path n @ pth) fs d"
proof (cases "map_of (children n) (take 1 pth)")
  case None
  with res have fs: "fs = [(n, take 1 pth)]" and d: "d = Radix pth [] h"
    by (simp_all add: insert_radix_def)
  show ?thesis
  proof (rule landsI)
    show "(acc @ path n) @ path d = acc @ path n @ pth" by (simp add: d)
    show "tree_inv P (acc @ path n) d" unfolding d by (rule leaf_inv [OF st])
    show "path d \<noteq> []" using ne by (simp add: d)
    show "take 1 (path d) \<noteq> ''*''" using st ne by (cases pth) (auto simp: d)
    show "resumes P acc n fs (acc @ path n) d"
      unfolding fs by (rule resumes_leaf [OF inv ns nn]) (simp add: d)
  qed
next
  case (Some c)
  with res obtain fs' where m: "merge c pth h = Inr (fs', d)"
    and fs: "fs = fs' @ [(n, take 1 pth)]"
    by (auto simp: insert_radix_def split: sum.splits)
  from tree_inv_child [OF inv Some]
  have c: "take 1 pth = take 1 (path c)" "path c \<noteq> []" "tree_inv P (acc @ path n) c"
    by simp_all
  from m c(2) ne have "merge_loop c pth h = Inr (fs', d)"
    by (simp add: merge_def)
  from merge_loop_inv [OF this c(3) st ne c(1)]
  obtain accd where accd: "accd @ path d = (acc @ path n) @ pth" "tree_inv P accd d"
    "path d \<noteq> []" "take 1 (path d) \<noteq> ''*''" "resumes P (acc @ path n) c fs' accd d"
    unfolding lands_def by blast
  show ?thesis
  proof (rule landsI)
    show "accd @ path d = acc @ path n @ pth" using accd(1) by simp
    show "resumes P acc n fs accd d"
      unfolding fs by (rule resumes_frame [OF inv ns nn c(1) accd(5)])
  qed (rule accd)+
qed

lemma lcp_same: "longestCommonPrefix a a = length a"
  by (induction a) auto

lemma insert_radix_existing:
  assumes "map_of (children n) (take 1 pth) = Some c" and "path c = pth" and "pth \<noteq> []"
  shows "insert_radix n pth None = Inr ([(n, take 1 pth)], c)"
proof -
  have i: "merge_index c pth = length pth"
    by (simp add: merge_index_def assms(2) lcp_same)
  then have "merge_node c pth = c"
    by (simp add: merge_node_def assms(2))
  with i have "merge_loop c pth None = Inr ([], c)"
    by (subst merge_loop_unfold) simp
  with assms show ?thesis
    by (simp add: insert_radix_def merge_def)
qed

text \<open>
  The pattern has no \<open>/\<close> after its first \<open>*\<close> (the wildcard segment ends the pattern);
  \<open>fresh_wildcard\<close>: no pattern of \<open>P\<close> other than \<open>pat\<close> agrees with \<open>pat\<close> up to its
  \<open>*\<close>.
\<close>

definition wildcard_last :: "string \<Rightarrow> bool" where
  "wildcard_last pat \<longleftrightarrow> CHR ''/'' \<notin> set (dropWhile (\<lambda>c. c \<noteq> CHR ''*'') pat)"

definition fresh_wildcard :: "string set \<Rightarrow> string \<Rightarrow> bool" where
  "fresh_wildcard P pat \<longleftrightarrow>
     (\<forall>q \<in> P. CHR ''*'' \<in> set q \<and> CHR ''*'' \<in> set pat \<and>
        takeWhile (\<lambda>c. c \<noteq> CHR ''*'') q = takeWhile (\<lambda>c. c \<noteq> CHR ''*'') pat \<longrightarrow> q = pat)"

lemma first_star:
  assumes "CHR ''*'' \<notin> set (take i pat)" and "i < length pat" and "pat ! i = CHR ''*''"
  shows "takeWhile (\<lambda>c. c \<noteq> CHR ''*'') pat = take i pat"
    and "dropWhile (\<lambda>c. c \<noteq> CHR ''*'') pat = drop i pat"
proof -
  have pat: "pat = take i pat @ CHR ''*'' # drop (Suc i) pat"
    using assms(2,3) id_take_nth_drop by fastforce
  have "takeWhile (\<lambda>c. c \<noteq> CHR ''*'') (take i pat @ CHR ''*'' # drop (Suc i) pat) = take i pat"
    using assms(1) by (subst takeWhile_append2) auto
  with pat show 1: "takeWhile (\<lambda>c. c \<noteq> CHR ''*'') pat = take i pat" by simp
  from takeWhile_dropWhile_id [of "\<lambda>c. c \<noteq> CHR ''*''" pat] 1
  show "dropWhile (\<lambda>c. c \<noteq> CHR ''*'') pat = drop i pat"
    by (metis append_take_drop_id same_append_eq)
qed

lemma take_slice: "j \<le> i \<Longrightarrow> take j s @ slice j i s = take i s"
  by (simp add: slice_def) (metis le_add_diff_inverse take_add)

lemma in_set_sliceD:
  assumes "c \<in> set (slice j i s)"
  shows "\<exists>x. j \<le> x \<and> x < i \<and> x < length s \<and> c = s ! x"
proof -
  from assms obtain y where y: "y < length (slice j i s)" "slice j i s ! y = c"
    by (auto simp: in_set_conv_nth)
  then have "y < i - j" "y < length s - j" by (simp_all add: slice_def)
  moreover from this y(2) have "c = s ! (j + y)" by (simp add: slice_def)
  ultimately show ?thesis by (intro exI [of _ "j + y"]) auto
qed

lemma in_set_takeD': "c \<in> set (take i s) \<Longrightarrow> \<exists>x. x < i \<and> x < length s \<and> c = s ! x"
  by (auto simp: in_set_conv_nth)


definition settled :: "string set \<Rightarrow> string \<Rightarrow> 'h radix \<Rightarrow> 'h radix \<Rightarrow> bool" where
  "settled P acc n n' \<longleftrightarrow>
     tree_inv P acc n' \<and> take 1 (path n') = take 1 (path n) \<and> path n' \<noteq> []"

lemma lands_settled:
  assumes "lands P acc n whole fs d" and "P \<subseteq> P'"
    and "\<And>accd. accd @ path d = whole \<Longrightarrow> tree_inv P accd d \<Longrightarrow> path d \<noteq> [] \<Longrightarrow>
           take 1 (path d) \<noteq> ''*'' \<Longrightarrow> settled P' accd d d'"
  shows "settled P' acc n (plug fs d')"
proof -
  from assms(1) obtain accd where accd: "accd @ path d = whole" "tree_inv P accd d"
    "path d \<noteq> []" "take 1 (path d) \<noteq> ''*''" "resumes P acc n fs accd d"
    unfolding lands_def by blast
  from assms(3) [OF accd(1-4)] have "settled P' accd d d'" .
  with accd(5) assms(2) show ?thesis
    unfolding settled_def resumes_def by blast
qed

lemma resumes_apply:
  "resumes P acc n fs accd d \<Longrightarrow> P \<subseteq> P' \<Longrightarrow> take 1 (path d') = take 1 (path d) \<Longrightarrow>
   path d' \<noteq> [] \<Longrightarrow> tree_inv P' accd d' \<Longrightarrow> settled P' acc n (plug fs d')"
  unfolding resumes_def settled_def by blast

lemma settled_self: "tree_inv P acc n \<Longrightarrow> path n \<noteq> [] \<Longrightarrow> P \<subseteq> P' \<Longrightarrow> settled P' acc n n"
  by (simp add: settled_def tree_inv_mono)

lemma static_step:
  assumes res: "(if j \<noteq> i then insert_radix n (slice j i pat) None else Inr ([], n)) = Inr (fs1, n1)"
    and inv: "tree_inv P acc n" and ns: "take 1 (path n) \<noteq> ''*''" and nn: "path n \<noteq> []"
    and pos: "acc @ path n = take j pat" and ji: "j \<le> i" and il: "i \<le> length pat"
    and nm: "\<forall>x. j \<le> x \<and> x < i \<and> x < length pat \<longrightarrow> \<not> isWildcard (pat ! x)"
  shows "lands P acc n (take i pat) fs1 n1"
proof (cases "j = i")
  case True
  with res have "fs1 = []" "n1 = n" by simp_all
  with inv ns nn pos True show ?thesis
    by (intro landsI [of acc]) (simp_all add: resumes_Nil)
next
  case False
  with res have ins: "insert_radix n (slice j i pat) None = Inr (fs1, n1)" by simp
  have st: "CHR ''*'' \<notin> set (slice j i pat)"
    using nm by (auto dest!: in_set_sliceD simp: isWildcard_def)
  have ne: "slice j i pat \<noteq> []"
    using False ji il by (simp add: slice_def)
  from insert_radix_inv [OF ins inv ns nn st ne]
  have "lands P acc n (acc @ path n @ slice j i pat) fs1 n1" .
  moreover have "acc @ path n @ slice j i pat = take i pat"
    using pos take_slice [OF ji, of pat] by (metis append.assoc)
  ultimately show ?thesis by simp
qed

lemma add_loop_end:
  assumes res: "add_loop pat h i j n = Inr n'" and stop: "\<not> i < length pat"
    and inv: "tree_inv P acc n" and ns: "take 1 (path n) \<noteq> ''*''" and nn: "path n \<noteq> []"
    and pos: "acc @ path n = take j pat" and jl: "j \<le> length pat"
    and nm: "\<forall>x. j \<le> x \<and> x < length pat \<longrightarrow> \<not> isWildcard (pat ! x)"
    and sub: "P \<subseteq> P'"
  shows "settled P' acc n n'"
proof (cases "j = length pat")
  case True
  with res stop nn have "handler n = None" and n': "n' = Radix (path n) (children n) (Some h)"
    by (subst (asm) add_loop.simps, simp add: merge_def split: if_splits)+
  have "tree_inv P acc n'"
    using inv ns unfolding n' by (subst (asm) tree_inv_unfold, subst tree_inv_unfold) simp
  with nn sub show ?thesis
    by (simp add: settled_def n' tree_inv_mono)
next
  case False
  let ?pc = "slice j (length pat) pat"
  from res stop False obtain fs d where ins: "insert_radix n ?pc (Some h) = Inr (fs, d)"
    and n': "n' = plug fs d"
    by (subst (asm) add_loop.simps) (auto split: sum.splits)
  have st: "CHR ''*'' \<notin> set ?pc"
    using nm by (auto dest!: in_set_sliceD simp: isWildcard_def)
  have ne: "?pc \<noteq> []"
    using False jl by (simp add: slice_def)
  from insert_radix_inv [OF ins inv ns nn st ne]
  have "lands P acc n (acc @ path n @ ?pc) fs d" .
  from lands_settled [OF this sub, of d] show ?thesis
    unfolding n' by (simp add: settled_self sub)
qed


lemma star_step:
  assumes wl: "wildcard_last pat" and fw: "fresh_wildcard P pat"
    and res: "insert_radix n1 (slice i (length pat) pat) None = Inr (fs2, n2)"
    and rec: "add_loop pat h (Suc (length pat)) (length pat) n2 = Inr n3"
    and inv: "tree_inv P acc1 n1" and ns: "take 1 (path n1) \<noteq> ''*''" and nn: "path n1 \<noteq> []"
    and pos: "acc1 @ path n1 = take i pat" and il: "i < length pat"
    and star: "pat ! i = CHR ''*''"
    and nm: "\<forall>x. Suc i \<le> x \<and> x < length pat \<longrightarrow> \<not> isWildcard (pat ! x)"
    and pre: "CHR ''*'' \<notin> set (take i pat)"
  shows "settled (insert pat P) acc1 n1 (plug fs2 n3)"
proof -
  let ?mp = "slice i (length pat) pat"
  have mp: "?mp = drop i pat" by (simp add: slice_def)
  have mpc: "?mp = CHR ''*'' # drop (Suc i) pat"
    unfolding mp using il star by (metis Cons_nth_drop_Suc)
  have key: "take 1 ?mp = ''*''" by (simp add: mpc)
  have tail: "CHR ''*'' \<notin> set (drop (Suc i) pat)"
  proof
    assume "CHR ''*'' \<in> set (drop (Suc i) pat)"
    then obtain y where "y < length pat - Suc i" "drop (Suc i) pat ! y = CHR ''*''"
      by (auto simp: in_set_conv_nth)
    then have "Suc i + y < length pat" "pat ! (Suc i + y) = CHR ''*''" by simp_all
    with nm show False by (auto simp: isWildcard_def)
  qed
  have whole: "(acc1 @ path n1) @ ?mp = pat"
    by (simp add: pos mp)
  show ?thesis
  proof (cases "map_of (children n1) ''*''")
    case None
    with res key have fs2: "fs2 = [(n1, ''*'')]" and n2: "n2 = Radix ?mp [] None"
      by (simp_all add: insert_radix_def)
    from rec have n3: "n3 = Radix ?mp [] (Some h)"
      unfolding n2 by (subst (asm) add_loop.simps) (simp add: merge_def mpc)
    have t3: "tree_inv (insert pat P) (acc1 @ path n1) n3"
      unfolding n3 using tail whole by (subst tree_inv_unfold) (simp add: mpc)
    have r: "resumes P acc1 n1 [(n1, ''*'')] (acc1 @ path n1) n3"
      by (rule resumes_leaf [OF inv ns nn]) (use key in \<open>simp add: n3\<close>)
    show ?thesis
      unfolding fs2 by (rule resumes_apply [OF r _ _ _ t3]) (auto simp: n3 mpc)
  next
    case (Some c)
    from tree_inv_child [OF inv Some]
    have c: "''*'' = take 1 (path c)" "path c \<noteq> []" "tree_inv P (acc1 @ path n1) c"
      by simp_all
    from c(3) c(1) have leaf: "handler c \<noteq> None" and mem: "(acc1 @ path n1) @ path c \<in> P"
      by (subst (asm) tree_inv_unfold, simp)+
    let ?q = "take i pat @ path c"
    from c(1,2) obtain x where pc: "path c = CHR ''*'' # x"
      by (cases "path c") auto
    have "takeWhile (\<lambda>c. c \<noteq> CHR ''*'') ?q = take i pat"
      using pre by (subst takeWhile_append2) (auto simp: pc)
    with first_star(1) [OF pre il star]
    have "takeWhile (\<lambda>c. c \<noteq> CHR ''*'') ?q = takeWhile (\<lambda>c. c \<noteq> CHR ''*'') pat" by simp
    moreover have "CHR ''*'' \<in> set ?q" by (simp add: pc)
    moreover have "CHR ''*'' \<in> set pat" using il star by (metis nth_mem)
    moreover have "?q \<in> P" using mem pos by simp
    ultimately have "?q = pat" using fw by (auto simp: fresh_wildcard_def)
    then have "take i pat @ path c = take i pat @ drop i pat" by simp
    then have same: "path c = ?mp" unfolding mp by (simp only: same_append_eq)
    have "map_of (children n1) (take 1 ?mp) = Some c" using Some key by simp
    from insert_radix_existing [OF this same] res have n2: "n2 = c"
      by (simp add: mpc)
    from rec leaf c(2) show ?thesis
      unfolding n2 by (subst (asm) add_loop.simps) (simp add: merge_def)
  qed
qed


lemma add_loop_marker_result:
  assumes res: "add_loop pat h i j n = Inr n'" and il: "i < length pat"
    and w: "isWildcard (pat ! i)"
    and st: "(if j \<noteq> i then insert_radix n (slice j i pat) None else Inr ([], n)) = Inr (fs1, n1)"
  shows "\<exists>i2 fs2 n2 n3. scan_name pat (Suc i) = Inr i2 \<and>
           insert_radix n1 (slice i i2 pat) None = Inr (fs2, n2) \<and>
           add_loop pat h (Suc i2) i2 n2 = Inr n3 \<and> n' = plug fs1 (plug fs2 n3)"
  using res by (subst (asm) add_loop.simps)
    (simp add: il w st split: sum.splits prod.splits if_splits)

lemma add_loop_inv:
  assumes wl: "wildcard_last pat" and fw: "fresh_wildcard P pat"
  shows "add_loop pat h i j n = Inr n' \<Longrightarrow> tree_inv P acc n \<Longrightarrow> take 1 (path n) \<noteq> ''*'' \<Longrightarrow>
     path n \<noteq> [] \<Longrightarrow> acc @ path n = take j pat \<Longrightarrow> j \<le> i \<Longrightarrow> j \<le> length pat \<Longrightarrow>
     (\<forall>x. j \<le> x \<and> x < i \<and> x < length pat \<longrightarrow> \<not> isWildcard (pat ! x)) \<Longrightarrow>
     CHR ''*'' \<notin> set (take j pat) \<Longrightarrow> settled (insert pat P) acc n n'"
proof (induction "Suc (length pat) - i" arbitrary: i j n n' acc rule: less_induct)
  case less
  note res = less.prems(1) and inv = less.prems(2) and ns = less.prems(3)
    and nn = less.prems(4) and pos = less.prems(5) and ji = less.prems(6)
    and jl = less.prems(7) and nm = less.prems(8) and pre = less.prems(9)
  have sub: "P \<subseteq> insert pat P" by auto
  show ?case
  proof (cases "i < length pat")
    case False
    with nm have "\<forall>x. j \<le> x \<and> x < length pat \<longrightarrow> \<not> isWildcard (pat ! x)" by auto
    from add_loop_end [OF res False inv ns nn pos jl this sub] show ?thesis .
  next
    case il: True
    show ?thesis
    proof (cases "isWildcard (pat ! i)")
      case False
      from res add_loop_skip [OF il False, of h j n]
      have r: "add_loop pat h (Suc i) j n = Inr n'" by simp
      have nm': "\<forall>x. j \<le> x \<and> x < Suc i \<and> x < length pat \<longrightarrow> \<not> isWildcard (pat ! x)"
        using nm False by (auto simp: less_Suc_eq)
      from less.hyps [OF _ r inv ns nn pos _ jl nm' pre] il ji show ?thesis by simp
    next
      case w: True
      from add_loop_static_ok [OF il ji, of n] obtain fs1 n1 where
        st: "(if j \<noteq> i then insert_radix n (slice j i pat) None else Inr ([], n)) = Inr (fs1, n1)"
        by blast
      from il have "i \<le> length pat" by simp
      from static_step [OF st inv ns nn pos ji this] nm
      have lands1: "lands P acc n (take i pat) fs1 n1" by blast
      have pre_i: "CHR ''*'' \<notin> set (take i pat)"
      proof
        assume "CHR ''*'' \<in> set (take i pat)"
        then obtain x where x: "x < i" "x < length pat" "pat ! x = CHR ''*''"
          by (auto dest!: in_set_takeD')
        show False
        proof (cases "x < j")
          case True
          with x have "CHR ''*'' \<in> set (take j pat)"
            by (auto simp: in_set_conv_nth intro!: exI [of _ x])
          with pre show False ..
        next
          case False
          with x nm show False by (auto simp: isWildcard_def)
        qed
      qed
      from add_loop_marker_result [OF res il w st] obtain i2 fs2 n2 n3 where
        sc: "scan_name pat (Suc i) = Inr i2"
        and ins: "insert_radix n1 (slice i i2 pat) None = Inr (fs2, n2)"
        and rec: "add_loop pat h (Suc i2) i2 n2 = Inr n3"
        and n': "n' = plug fs1 (plug fs2 n3)"
        by blast
      from scan_name_Inr [OF sc] il
      have i2: "i2 \<le> length pat" "i2 = length pat \<or> pat ! i2 = CHR ''/''"
        and names: "\<forall>x. Suc i \<le> x \<and> x < i2 \<longrightarrow> \<not> isWildcard (pat ! x) \<and> pat ! x \<noteq> CHR ''/''"
        by auto
      from scan_name_ge [OF sc] have ii2: "i < i2" by simp
      show ?thesis
        unfolding n'
      proof (rule lands_settled [OF lands1 sub])
        fix acc1
        assume pos1: "acc1 @ path n1 = take i pat" and inv1: "tree_inv P acc1 n1"
          and nn1: "path n1 \<noteq> []" and ns1: "take 1 (path n1) \<noteq> ''*''"
        show "settled (insert pat P) acc1 n1 (plug fs2 n3)"
        proof (cases "pat ! i = CHR ''*''")
          case True
          from first_star(2) [OF pre_i il True] wl
          have nsl: "CHR ''/'' \<notin> set (drop i pat)" by (simp add: wildcard_last_def)
          have "i2 = length pat"
          proof (rule ccontr)
            assume "i2 \<noteq> length pat"
            with i2 have "i2 < length pat" "pat ! i2 = CHR ''/''" by auto
            with ii2 have "CHR ''/'' \<in> set (drop i pat)"
              by (auto simp: in_set_conv_nth intro!: exI [of _ "i2 - i"])
            with nsl show False ..
          qed
          with ins rec names show ?thesis
            by (intro star_step [OF wl fw _ _ inv1 ns1 nn1 pos1 il True _ pre_i]) auto
        next
          case False
          with w have colon: "pat ! i = CHR '':''" by (simp add: isWildcard_def)
          let ?mp = "slice i i2 pat"
          have st2: "CHR ''*'' \<notin> set ?mp"
          proof
            assume "CHR ''*'' \<in> set ?mp"
            then obtain x where "i \<le> x" "x < i2" "pat ! x = CHR ''*''"
              by (auto dest!: in_set_sliceD)
            with names colon show False
              by (cases "x = i") (auto simp: isWildcard_def)
          qed
          have ne2: "?mp \<noteq> []" using ii2 il by (simp add: slice_def)
          from insert_radix_inv [OF ins inv1 ns1 nn1 st2 ne2]
          have "lands P acc1 n1 (acc1 @ path n1 @ ?mp) fs2 n2" .
          moreover have "acc1 @ path n1 @ ?mp = take i2 pat"
            using pos1 take_slice [of i i2 pat] ii2 by (metis append.assoc less_imp_le)
          ultimately have lands2: "lands P acc1 n1 (take i2 pat) fs2 n2" by simp
          show ?thesis
          proof (rule lands_settled [OF lands2 sub])
            fix acc2
            assume pos2: "acc2 @ path n2 = take i2 pat" and inv2: "tree_inv P acc2 n2"
              and nn2: "path n2 \<noteq> []" and ns2: "take 1 (path n2) \<noteq> ''*''"
            have nm2: "\<forall>x. i2 \<le> x \<and> x < Suc i2 \<and> x < length pat \<longrightarrow> \<not> isWildcard (pat ! x)"
              using i2 by (auto simp: less_Suc_eq isWildcard_def)
            have pre2: "CHR ''*'' \<notin> set (take i2 pat)"
            proof -
              have "take i2 pat = take i pat @ ?mp"
                using take_slice [of i i2 pat] ii2 by simp
              with pre_i st2 show ?thesis by simp
            qed
            from less.hyps [OF _ rec inv2 ns2 nn2 pos2 _ i2(1) nm2 pre2] il ii2
            show "settled (insert pat P) acc2 n2 n3" by simp
          qed
        qed
      qed
    qed
  qed
qed


definition root_ok :: "'h radix \<Rightarrow> bool" where
  "root_ok t \<longleftrightarrow> path t = [] \<and> children t = [] \<or> take 1 (path t) = ''/''"

lemma add_inv:
  assumes res: "add t pat h = Inr t'" and inv: "tree_inv P [] t" and root: "root_ok t"
    and sl: "take 1 pat = ''/''" and wl: "wildcard_last pat" and fw: "fresh_wildcard P pat"
  shows "tree_inv (insert pat P) [] t' \<and> take 1 (path t') = ''/''"
proof -
  let ?i = "skip_static pat"
  let ?pre = "take ?i pat"
  have pre: "?pre = takeWhile (\<lambda>c. \<not> isWildcard c) pat"
    unfolding skip_static_def by (rule takeWhile_eq_take [symmetric])
  have st: "CHR ''*'' \<notin> set ?pre"
    unfolding pre by (auto dest!: set_takeWhileD simp: isWildcard_def)
  from skip_static_pos [OF sl] sl have ne: "?pre \<noteq> []" and t1: "take 1 ?pre = ''/''"
    by (cases pat; auto)+
  have il: "?i \<le> length pat"
    unfolding skip_static_def by (rule length_takeWhile_le)
  from res obtain fs n1 n2 where m: "merge t ?pre None = Inr (fs, n1)"
    and rec: "add_loop pat h ?i ?i n1 = Inr n2" and t': "t' = plug fs n2"
    by (auto simp: add_def Let_def split: sum.splits)
  have "\<exists>m. lands P [] m ?pre fs n1 \<and> take 1 (path m) = ''/''"
  proof (cases "path t = [] \<and> children t = []")
    case True
    with m have fs: "fs = []" and n1: "n1 = Radix ?pre [] None"
      by (simp_all add: merge_def)
    have "lands P [] n1 ?pre fs n1"
      unfolding fs by (rule landsI [of "[]"])
        (use ne t1 in \<open>simp_all add: n1 leaf_inv [OF st] resumes_Nil\<close>)
    with t1 show ?thesis by (intro exI [of _ n1]) (simp add: n1)
  next
    case False
    with root have rt: "take 1 (path t) = ''/''" by (auto simp: root_ok_def)
    from m False ne have "merge_loop t ?pre None = Inr (fs, n1)"
      by (simp add: merge_def)
    from merge_loop_inv [OF this inv st ne] t1 rt
    have "lands P [] t ?pre fs n1" by simp
    with rt show ?thesis by blast
  qed
  then obtain m where lands: "lands P [] m ?pre fs n1" and mt: "take 1 (path m) = ''/''"
    by blast
  have "settled (insert pat P) [] m (plug fs n2)"
  proof (rule lands_settled [OF lands])
    show "P \<subseteq> insert pat P" by auto
  next
    fix accd
    assume "accd @ path n1 = ?pre" and "tree_inv P accd n1" and "path n1 \<noteq> []"
      and "take 1 (path n1) \<noteq> ''*''"
    with st il show "settled (insert pat P) accd n1 n2"
      by (intro add_loop_inv [OF wl fw rec]) auto
  qed
  with mt show ?thesis
    by (simp add: settled_def t')
qed

text \<open>No two distinct patterns of the set agree up to their first \<open>*\<close>.\<close>

definition wildcards_apart :: "string set \<Rightarrow> bool" where
  "wildcards_apart S \<longleftrightarrow>
     (\<forall>p \<in> S. \<forall>q \<in> S. CHR ''*'' \<in> set p \<and> CHR ''*'' \<in> set q \<and>
        takeWhile (\<lambda>c. c \<noteq> CHR ''*'') p = takeWhile (\<lambda>c. c \<noteq> CHR ''*'') q \<longrightarrow> p = q)"

lemma adds_inv:
  "adds t rs = Inr t' \<Longrightarrow> tree_inv P [] t \<Longrightarrow> root_ok t \<Longrightarrow>
   \<forall>(p, h) \<in> set rs. take 1 p = ''/'' \<and> wildcard_last p \<Longrightarrow>
   wildcards_apart (P \<union> fst ` set rs) \<Longrightarrow> tree_inv (P \<union> fst ` set rs) [] t'"
proof (induction rs arbitrary: t P)
  case Nil
  then show ?case by simp
next
  case (Cons r rs)
  obtain pat h where r: "r = (pat, h)" by (cases r)
  from Cons.prems(1) obtain t1 where a: "add t pat h = Inr t1" and rest: "adds t1 rs = Inr t'"
    by (auto simp: r split: sum.splits)
  from Cons.prems(4) have pat: "take 1 pat = ''/''" "wildcard_last pat" by (simp_all add: r)
  from Cons.prems(5) have fw: "fresh_wildcard P pat"
    unfolding wildcards_apart_def fresh_wildcard_def r by auto
  from add_inv [OF a Cons.prems(2,3) pat fw]
  have t1: "tree_inv (insert pat P) [] t1" "root_ok t1"
    by (simp_all add: root_ok_def)
  have eq: "insert pat P \<union> fst ` set rs = P \<union> fst ` set (r # rs)"
    by (auto simp: r)
  from Cons.IH [OF rest t1] Cons.prems(4,5) show ?case
    unfolding eq by simp
qed

text \<open>Every node of the tree whose label starts with \<open>*\<close> has no children.\<close>

fun wild_leaf :: "'h radix \<Rightarrow> bool" where
  "wild_leaf (Radix lbl cs h) \<longleftrightarrow>
     (take 1 lbl = ''*'' \<longrightarrow> cs = []) \<and> (\<forall>(k, c) \<in> set cs. wild_leaf c)"

lemma tree_inv_wild_leaf: "tree_inv P acc n \<Longrightarrow> wild_leaf n"
proof (induction P acc n rule: tree_inv.induct)
  case (1 P acc lbl cs h)
  from "1.prems" show ?case
    by (subst (asm) tree_inv_unfold) (auto intro: "1.IH")
qed

text \<open>
  Claim C5, as stated, fails: \<open>add\<close> accepts a pattern that goes on after its wildcard
  segment, and it accepts two patterns that differ only in the name after the same
  \<open>*\<close>; both leave a wildcard node with children.
\<close>

theorem wildcard_node_with_children:
  "(\<exists>t. adds empty_radix [(''/*x/b'', ''h'')] = Inr t \<and> \<not> wild_leaf t) \<and>
   (\<exists>t. adds empty_radix [(''/*xy'', ''h1''), (''/*xz'', ''h2'')] = Inr t \<and> \<not> wild_leaf t)"
proof -
  have "adds empty_radix [(''/*x/b'', ''h'')] =
      Inr (Radix ''/'' [(''*'', Radix ''*x'' [(''/'', Radix ''/b'' [] (Some ''h''))] None)] None)"
    by (simp add: add_eval)
  moreover have "adds empty_radix [(''/*xy'', ''h1''), (''/*xz'', ''h2'')] =
      Inr (Radix ''/'' [(''*'', Radix ''*x'' [(''y'', Radix ''y'' [] (Some ''h1'')),
                                            (''z'', Radix ''z'' [] (Some ''h2''))] None)] None)"
    by (simp add: add_eval)
  ultimately show ?thesis by simp
qed


text \<open>
  Claim C5, amended. In every tree produced from a new tree by a sequence of successful
  \<open>add\<close> calls whose patterns start with \<open>/\<close>, have no \<open>/\<close> after a \<open>*\<close>, and of which no
  two distinct ones agree up to their \<open>*\<close>, a wildcard node has no children.
\<close>

theorem wildcard_nodes_are_leaves:
  assumes "adds empty_radix rs = Inr t"
    and "\<forall>(p, h) \<in> set rs. take 1 p = ''/'' \<and> wildcard_last p"
    and "wildcards_apart (fst ` set rs)"
  shows "wild_leaf t"
proof -
  have "tree_inv {} [] (empty_radix :: 'a radix)"
    by (simp add: empty_radix_def tree_inv.simps)
  moreover have "root_ok (empty_radix :: 'a radix)"
    by (simp add: empty_radix_def root_ok_def)
  ultimately have "tree_inv ({} \<union> fst ` set rs) [] t"
    using assms by (intro adds_inv [OF assms(1)]) simp_all
  then show ?thesis by (rule tree_inv_wild_leaf)
qed

theorem wildcard_nodes_are_leaves_witness:
  "adds empty_radix [(''/files/*rest'', ''h1''), (''/users/:id'', ''h2'')] =
     Inr (Radix ''/'' [(''f'', Radix ''files/'' [(''*'', Radix ''*rest'' [] (Some ''h1''))] None),
                       (''u'', Radix ''users/'' [('':'', Radix '':id'' [] (Some ''h2''))] None)] None) \<and>
   wildcard_last ''/files/*rest'' \<and> wildcard_last ''/users/:id'' \<and>
   wildcards_apart {''/files/*rest'', ''/users/:id''} \<and>
   wild_leaf (Radix ''/'' [(''f'', Radix ''files/'' [(''*'', Radix ''*rest'' [] (Some ''h1''))] None),
                       (''u'', Radix ''users/'' [('':'', Radix '':id'' [] (Some ''h2''))] None)] None)"
proof -
  let ?rs = "[(''/files/*rest'', ''h1''), (''/users/:id'', ''h2'')]"
  let ?t = "Radix ''/'' [(''f'', Radix ''files/'' [(''*'', Radix ''*rest'' [] (Some ''h1''))] None),
                       (''u'', Radix ''users/'' [('':'', Radix '':id'' [] (Some ''h2''))] None)] None"
  have a: "adds empty_radix ?rs = Inr ?t"
    by (simp add: add_eval)
  have b: "wildcard_last ''/files/*rest''" "wildcard_last ''/users/:id''"
    by (simp_all add: wildcard_last_def)
  have c: "wildcards_apart {''/files/*rest'', ''/users/:id''}"
    by (simp add: wildcards_apart_def)
  have "wild_leaf ?t"
    by (rule wildcard_nodes_are_leaves [OF a]) (use b c in simp_all)
  with a b c show ?thesis by simp
qed


section \<open>Order of registration\<close>

text \<open>
  Two trees that differ only in the order of the entries of their \<open>children\<close> maps
  are told apart by nothing \<open>find\<close> does: it reads a map by key only. The section shows
  that the trees built from the same registrations in two orders differ in that way
  only. A tree is described by its \<open>nodes\<close>: for every node, the label accumulated from
  the root down to it, with its handler; \<open>labels\<close> are the accumulated labels, \<open>bound\<close>
  the ones with a handler. \<open>keyed\<close> is the shape every tree of \<open>add\<close> has: the keys of
  one map are distinct and every child sits under the first character of its non-empty
  label.
\<close>

fun nodes :: "string \<Rightarrow> 'h radix \<Rightarrow> (string \<times> 'h option) set" where
  "nodes acc (Radix l cs h) = insert (acc @ l, h) (\<Union>(k, c) \<in> set cs. nodes (acc @ l) c)"

lemma nodes_unfold:
  "nodes acc n =
     insert (acc @ path n, handler n) (\<Union>(k, c) \<in> set (children n). nodes (acc @ path n) c)"
  by (cases n) simp

declare nodes.simps [simp del]

definition labels :: "string \<Rightarrow> 'h radix \<Rightarrow> string set" where
  "labels acc n = fst ` nodes acc n"

definition handlers_in :: "(string \<times> 'h option) set \<Rightarrow> (string \<times> 'h) set" where
  "handlers_in N = {(s, x). (s, Some x) \<in> N}"

definition bound :: "string \<Rightarrow> 'h radix \<Rightarrow> (string \<times> 'h) set" where
  "bound acc n = handlers_in (nodes acc n)"

fun keyed :: "'h radix \<Rightarrow> bool" where
  "keyed (Radix l cs h) \<longleftrightarrow>
     distinct (map fst cs) \<and>
     (\<forall>(k, c) \<in> set cs. k = take 1 (path c) \<and> path c \<noteq> [] \<and> keyed c)"

lemma keyed_unfold:
  "keyed n \<longleftrightarrow>
     distinct (map fst (children n)) \<and>
     (\<forall>(k, c) \<in> set (children n). k = take 1 (path c) \<and> path c \<noteq> [] \<and> keyed c)"
  by (cases n) simp

declare keyed.simps [simp del]

text \<open>The same tree up to the order of the entries of each \<open>children\<close> map.\<close>

inductive alike :: "'h radix \<Rightarrow> 'h radix \<Rightarrow> bool" where
  "(\<forall>k. map_of cs k = None \<and> map_of cs' k = None \<or>
        (\<exists>c c'. map_of cs k = Some c \<and> map_of cs' k = Some c' \<and> alike c c')) \<Longrightarrow>
   alike (Radix l cs h) (Radix l cs' h)"

text \<open>
  The common prefix of two strings as a string, and the sets of strings that contain the
  common prefix of any two of their members.
\<close>

definition lcps :: "string \<Rightarrow> string \<Rightarrow> string" where
  "lcps a b = take (longestCommonPrefix a b) a"

definition closed :: "string set \<Rightarrow> bool" where
  "closed Y \<longleftrightarrow> (\<forall>x \<in> Y. \<forall>y \<in> Y. lcps x y \<in> Y)"

lemma lcps_eq: "lcps a b = longest_common_prefix a b"
  unfolding lcps_def by (induction a b rule: longestCommonPrefix.induct) auto

lemma lcps_commute: "lcps a b = lcps b a"
  unfolding lcps_eq
  by (meson longest_common_prefix_max_prefix longest_common_prefix_prefix1
      longest_common_prefix_prefix2 prefix_order.antisym)

lemma lcps_prefix: "prefix a b \<Longrightarrow> lcps a b = a"
  unfolding lcps_eq
  by (meson longest_common_prefix_max_prefix longest_common_prefix_prefix1
      prefix_order.antisym prefix_order.refl)

lemma lcps_append: "lcps (a @ u) (a @ v) = a @ lcps u v"
  unfolding lcps_eq by (induction a) auto

lemma lcps_differ: "take 1 u \<noteq> take 1 v \<Longrightarrow> lcps u v = []"
  unfolding lcps_eq by (cases u; cases v) auto

lemma nodes_prefix: "(s, x) \<in> nodes acc n \<Longrightarrow> prefix (acc @ path n) s"
proof (induction acc n arbitrary: s x rule: nodes.induct)
  case (1 acc l cs h)
  from "1.prems" show ?case
    by (subst (asm) nodes_unfold) (auto dest!: "1.IH" [OF _ refl] dest: append_prefixD)
qed

lemma nodes_root: "(acc @ path n, handler n) \<in> nodes acc n"
  by (subst nodes_unfold) simp

lemma nodes_child:
  "(k, c) \<in> set (children n) \<Longrightarrow> nodes (acc @ path n) c \<subseteq> nodes acc n"
  by (subst (2) nodes_unfold) auto

lemma keyed_child:
  assumes "keyed n" and "(k, c) \<in> set (children n)"
  shows "k = take 1 (path c)" and "path c \<noteq> []" and "keyed c"
  using assms by (subst (asm) keyed_unfold, auto)+

lemma keyed_same:
  assumes "keyed n" and "(k, c) \<in> set (children n)" and "(k, c') \<in> set (children n)"
  shows "c = c'"
proof -
  from assms(1) have "distinct (map fst (children n))" by (subst (asm) keyed_unfold) simp
  with assms(2,3) show ?thesis by (metis map_of_is_SomeI option.inject)
qed

text \<open>The key of a string below the boundary \<open>b\<close>: its next character.\<close>

definition key_at :: "string \<Rightarrow> string \<Rightarrow> string" where
  "key_at b s = take 1 (drop (length b) s)"

lemma child_key:
  assumes "keyed n" and "(k, c) \<in> set (children n)" and "(s, x) \<in> nodes (acc @ path n) c"
  shows "key_at (acc @ path n) s = k" and "k \<noteq> []"
proof -
  note c = keyed_child [OF assms(1,2)]
  from nodes_prefix [OF assms(3)] obtain r where "s = ((acc @ path n) @ path c) @ r"
    by (auto simp: prefix_def)
  then show "key_at (acc @ path n) s = k"
    using c(1,2) by (cases "path c") (auto simp: key_at_def)
  from c(1,2) show "k \<noteq> []" by (cases "path c") auto
qed

lemma key_at_root [simp]: "key_at b b = []"
  by (simp add: key_at_def)

lemma nodes_of_child:
  assumes "keyed n" and "(k, c) \<in> set (children n)"
  shows "nodes (acc @ path n) c = {x \<in> nodes acc n. key_at (acc @ path n) (fst x) = k}"
proof (intro equalityI subsetI)
  fix x assume "x \<in> nodes (acc @ path n) c"
  with child_key(1) [OF assms, of "fst x" "snd x" acc] nodes_child [OF assms(2), of acc]
  show "x \<in> {x \<in> nodes acc n. key_at (acc @ path n) (fst x) = k}" by auto
next
  fix x assume "x \<in> {x \<in> nodes acc n. key_at (acc @ path n) (fst x) = k}"
  then have x: "x \<in> nodes acc n" "key_at (acc @ path n) (fst x) = k" by auto
  from child_key(2) [OF assms] nodes_root [of "acc @ path n" c] have ne: "k \<noteq> []" by blast
  from x(1) consider "x = (acc @ path n, handler n)"
    | k' c' where "(k', c') \<in> set (children n)" "x \<in> nodes (acc @ path n) c'"
    by (subst (asm) nodes_unfold) auto
  then show "x \<in> nodes (acc @ path n) c"
  proof cases
    case 1
    with x(2) ne show ?thesis by simp
  next
    case 2
    from child_key(1) [OF assms(1) 2(1), of "fst x" "snd x" acc] 2(2) x(2)
    have "k' = k" by simp
    with keyed_same [OF assms(1,2)] 2 show ?thesis by simp
  qed
qed

lemma nodes_functional:
  "keyed n \<Longrightarrow> (s, a) \<in> nodes acc n \<Longrightarrow> (s, b) \<in> nodes acc n \<Longrightarrow> a = b"
proof (induction acc n arbitrary: s a b rule: nodes.induct)
  case (1 acc l cs h)
  let ?n = "Radix l cs h"
  note k = "1.prems"(1)
  have root: "a' = h" if "(acc @ l, a') \<in> nodes acc ?n" for a'
  proof (rule ccontr)
    assume "a' \<noteq> h"
    with that obtain k' c' where c': "(k', c') \<in> set cs" "(acc @ l, a') \<in> nodes (acc @ l) c'"
      by (subst (asm) nodes_unfold) auto
    from child_key [OF k, of k' c' "acc @ l" a' acc] c' show False by simp
  qed
  show ?case
  proof (cases "s = acc @ l")
    case True
    with "1.prems"(2,3) root show ?thesis by blast
  next
    case False
    with "1.prems"(2,3) obtain k1 c1 k2 c2 where
      c1: "(k1, c1) \<in> set cs" "(s, a) \<in> nodes (acc @ l) c1" and
      c2: "(k2, c2) \<in> set cs" "(s, b) \<in> nodes (acc @ l) c2"
      by (subst (asm) nodes_unfold, subst (asm) (2) nodes_unfold) auto
    from child_key(1) [OF k, of k1 c1 s a acc] child_key(1) [OF k, of k2 c2 s b acc] c1 c2
    have "k1 = k2" by simp
    with keyed_same [OF k, of k1 c1 c2] c1 c2 have "c1 = c2" by simp
    with "1.IH" [OF c1(1) refl _ c1(2)] c2(2) keyed_child(3) [OF k, of k1 c1] c1(1)
    show ?thesis by simp
  qed
qed


lemma labels_prefix: "s \<in> labels acc n \<Longrightarrow> prefix (acc @ path n) s"
  unfolding labels_def by (auto dest: nodes_prefix)

lemma labels_root: "acc @ path n \<in> labels acc n"
  unfolding labels_def using nodes_root [of acc n] by force

lemma labels_unfold:
  "labels acc n = insert (acc @ path n) (\<Union>(k, c) \<in> set (children n). labels (acc @ path n) c)"
  unfolding labels_def by (subst nodes_unfold) (auto simp: image_iff; force)

lemma labels_closed: "keyed n \<Longrightarrow> closed (labels acc n)"
proof (induction acc n rule: nodes.induct)
  case (1 acc l cs h)
  let ?n = "Radix l cs h"
  note k = "1.prems"
  have root: "lcps x y \<in> labels acc ?n" "lcps y x \<in> labels acc ?n"
    if "x = acc @ l" "y \<in> labels acc ?n" for x y
  proof -
    from labels_prefix [OF that(2)] that(1) have "lcps x y = x" by (simp add: lcps_prefix)
    with that(1) labels_root [of acc ?n] show "lcps x y \<in> labels acc ?n" by simp
    then show "lcps y x \<in> labels acc ?n" by (simp add: lcps_commute)
  qed
  have "lcps x y \<in> labels acc ?n" if x: "x \<in> labels acc ?n" and y: "y \<in> labels acc ?n" for x y
  proof (cases "x = acc @ l \<or> y = acc @ l")
    case True
    with root x y show ?thesis by blast
  next
    case False
    with x y obtain k1 c1 k2 c2 where
      c1: "(k1, c1) \<in> set cs" "x \<in> labels (acc @ l) c1" and
      c2: "(k2, c2) \<in> set cs" "y \<in> labels (acc @ l) c2"
      by (subst (asm) labels_unfold, subst (asm) (2) labels_unfold) auto
    show ?thesis
    proof (cases "k1 = k2")
      case True
      with keyed_same [OF k, of k1 c1 c2] c1 c2 have same: "c1 = c2" by simp
      from keyed_child(3) [OF k, of k1 c1] c1(1) have "keyed c1" by simp
      from "1.IH" [OF c1(1) refl this] c1(2) c2(2) same
      have "lcps x y \<in> labels (acc @ l) c1" by (auto simp: closed_def)
      with c1(1) show ?thesis by (subst labels_unfold) auto
    next
      case False
      from c1(2) obtain a where a: "(x, a) \<in> nodes (acc @ l) c1" by (auto simp: labels_def)
      from c2(2) obtain b where b: "(y, b) \<in> nodes (acc @ l) c2" by (auto simp: labels_def)
      from child_key(1) [OF k, of k1 c1 x a acc] c1(1) a
      have kx: "key_at (acc @ l) x = k1" by simp
      from child_key(1) [OF k, of k2 c2 y b acc] c2(1) b
      have ky: "key_at (acc @ l) y = k2" by simp
      from labels_prefix [OF x] obtain u where u: "x = (acc @ l) @ u" by (auto simp: prefix_def)
      from labels_prefix [OF y] obtain v where v: "y = (acc @ l) @ v" by (auto simp: prefix_def)
      from kx ky False have "take 1 u \<noteq> take 1 v" by (simp add: u v key_at_def)
      then have "lcps x y = acc @ l"
        unfolding u v lcps_append by (simp add: lcps_differ)
      with labels_root [of acc ?n] show ?thesis by simp
    qed
  qed
  then show ?case by (simp add: closed_def)
qed

lemma nodes_alike:
  "keyed n \<Longrightarrow> keyed n' \<Longrightarrow> nodes acc n = nodes acc n' \<Longrightarrow> alike n n'"
proof (induction acc n arbitrary: n' rule: nodes.induct)
  case (1 acc l cs h)
  let ?n = "Radix l cs h"
  obtain l' cs' h' where n': "n' = Radix l' cs' h'" by (cases n')
  note k = "1.prems"(1) and k' = "1.prems"(2) and eq = "1.prems"(3)
  from nodes_root [of acc ?n] eq have "(acc @ l, h) \<in> nodes acc n'" by simp
  from nodes_prefix [OF this] have p1: "prefix (acc @ l') (acc @ l)" by (simp add: n')
  from nodes_root [of acc n'] eq have r': "(acc @ l', h') \<in> nodes acc ?n" by (simp add: n')
  from nodes_prefix [OF this] have "prefix (acc @ l) (acc @ l')" by simp
  with p1 have l: "l' = l" by (simp add: prefix_order.antisym)
  from nodes_functional [OF k r' [unfolded l]] nodes_root [of acc ?n] have h: "h' = h" by simp
  have look: "map_of (children m) key = Some c \<longleftrightarrow> (key, c) \<in> set (children m)"
    if "keyed m" for m :: "'a radix" and key c
    using that by (subst (asm) keyed_unfold) simp
  have kids: "map_of cs key = None \<and> map_of cs' key = None \<or>
      (\<exists>c c'. map_of cs key = Some c \<and> map_of cs' key = Some c' \<and> alike c c')" for key
  proof (cases "map_of cs key")
    case None
    show ?thesis
    proof (cases "map_of cs' key")
      case None
      with \<open>map_of cs key = None\<close> show ?thesis by simp
    next
      case (Some c')
      with look [OF k'] have c': "(key, c') \<in> set (children n')" by (simp add: n')
      from nodes_root [of "acc @ l" c'] nodes_of_child [OF k' c', of acc] eq
      have x: "(acc @ l @ path c', handler c') \<in> nodes acc ?n"
        "key_at (acc @ l) (acc @ l @ path c') = key"
        by (auto simp: n' l)
      from child_key(2) [OF k' c'] nodes_root [of "acc @ path n'" c'] have ne: "key \<noteq> []"
        by blast
      from x(1) consider "acc @ l @ path c' = acc @ l"
        | k1 c1 where "(k1, c1) \<in> set cs" "(acc @ l @ path c', handler c') \<in> nodes (acc @ l) c1"
        by (subst (asm) nodes_unfold) auto
      then have False
      proof cases
        case 1
        with x(2) ne show False by (simp add: key_at_def)
      next
        case 2
        from child_key(1) [OF k, of k1 c1 _ _ acc] 2 x(2) have "k1 = key" by simp
        with 2(1) look [OF k, of key c1] None show False by simp
      qed
      then show ?thesis ..
    qed
  next
    case (Some c)
    with look [OF k] have c: "(key, c) \<in> set (children ?n)" by simp
    from nodes_root [of "acc @ l" c] nodes_of_child [OF k c, of acc] eq
    have x: "(acc @ l @ path c, handler c) \<in> nodes acc n'"
      "key_at (acc @ l) (acc @ l @ path c) = key"
      by auto
    from child_key(2) [OF k c] nodes_root [of "acc @ path ?n" c] have ne: "key \<noteq> []"
      by blast
    from x(1) consider "acc @ l @ path c = acc @ l"
      | k1 c1 where "(k1, c1) \<in> set cs'" "(acc @ l @ path c, handler c) \<in> nodes (acc @ l) c1"
      by (subst (asm) nodes_unfold) (auto simp: n' l)
    then obtain c' where c': "(key, c') \<in> set (children n')"
    proof cases
      case 1
      with x(2) ne show ?thesis by (simp add: key_at_def)
    next
      case 2
      from child_key(1) [OF k', of k1 c1 _ _ acc] 2 x(2) have "k1 = key" by (simp add: n' l)
      with 2(1) that show ?thesis by (simp add: n')
    qed
    from nodes_of_child [OF k c, of acc] nodes_of_child [OF k' c', of acc] eq
    have "nodes (acc @ l) c = nodes (acc @ l) c'" by (simp add: n' l)
    from "1.IH" [OF _ refl keyed_child(3) [OF k c] keyed_child(3) [OF k' c'] this] c
    have "alike c c'" by simp
    with Some look [OF k', of key c'] c' show ?thesis by (simp add: n')
  qed
  show ?case unfolding n' l h by (rule alike.intros) (use kids in blast)
qed

lemma nodes_determined:
  assumes k: "keyed n" and k': "keyed n'"
    and l: "labels acc n = labels acc n'" and b: "bound acc n = bound acc n'"
  shows "nodes acc n = nodes acc n'"
proof -
  have "nodes acc m \<subseteq> nodes acc m'"
    if "keyed m" "labels acc m = labels acc m'" "bound acc m = bound acc m'"
    for m m' :: "'a radix"
  proof
    fix x assume x: "x \<in> nodes acc m"
    obtain s a where sa: "x = (s, a)" by (cases x)
    from x that(2) obtain a' where a': "(s, a') \<in> nodes acc m'"
      by (force simp: labels_def sa)
    show "x \<in> nodes acc m'"
    proof (cases a')
      case (Some y)
      with a' that(3) have "(s, Some y) \<in> nodes acc m" by (auto simp: bound_def handlers_in_def)
      from nodes_functional [OF that(1) this] x a' Some show ?thesis by (simp add: sa)
    next
      case None
      show ?thesis
      proof (cases a)
        case None
        with a' \<open>a' = None\<close> show ?thesis by (simp add: sa)
      next
        case (Some y)
        with x that(3) show ?thesis by (auto simp: bound_def handlers_in_def sa)
      qed
    qed
  qed
  from this [OF k l b] this [OF k' l [symmetric] b [symmetric]] show ?thesis by blast
qed


subsection \<open>Lookup does not depend on the order of the children\<close>

lemma alike_fields: "alike n n' \<Longrightarrow> path n' = path n \<and> handler n' = handler n"
  by (auto elim: alike.cases)

lemma alike_child:
  "alike n n' \<Longrightarrow>
     map_of (children n) k = None \<and> map_of (children n') k = None \<or>
     (\<exists>c c'. map_of (children n) k = Some c \<and> map_of (children n') k = Some c' \<and> alike c c')"
  by (erule alike.cases) simp

definition alike_entry :: "'h entry \<Rightarrow> 'h entry \<Rightarrow> bool" where
  "alike_entry e e' \<longleftrightarrow> alike (fst e) (fst e') \<and> snd e' = snd e"

lemma push_children_alike:
  assumes "alike n n'" and "list_all2 alike_entry st st'"
  shows "list_all2 alike_entry (push_children n np st) (push_children n' np st')"
  using alike_child [OF assms(1), of "''*''"] alike_child [OF assms(1), of "'':''"]
    alike_child [OF assms(1), of "take 1 np"] assms(2)
  unfolding push_children_def Let_def by (auto simp: alike_entry_def)

lemma find_loop_alike:
  "list_all2 alike_entry st st' \<Longrightarrow> find_loop st ps = find_loop st' ps"
proof (induction st ps arbitrary: st' rule: find_loop.induct)
  case (1 ps)
  then show ?case by simp
next
  case (2 n p v st ps)
  from "2.prems" obtain e st0 where e: "st' = e # st0" "alike_entry (n, p, v) e"
    and r: "list_all2 alike_entry st st0"
    by (auto simp: list_all2_Cons1)
  from e obtain n' where st': "st' = (n', p, v) # st0" and a: "alike n n'"
    by (cases e) (auto simp: alike_entry_def)
  note f = alike_fields [OF a]
  have star: "map_of (children n') ''*'' = None \<longleftrightarrow> map_of (children n) ''*'' = None"
    using alike_child [OF a, of "''*''"] by auto
  have pc: "list_all2 alike_entry (push_children n np ((n, p, True) # st))
      (push_children n' np ((n', p, True) # st0))" for np
    by (rule push_children_alike [OF a]) (simp add: alike_entry_def a r)
  have L: "find_loop ((n, p, v) # st) ps =
     (if v then
        find_loop st (if take 1 (path n) = '':'' then AList.delete (drop 1 (path n)) ps else ps)
      else if take 1 (path n) = ''*'' then
        (handler n, if length (path n) > 1 then AList.update (drop 1 (path n)) p ps else ps)
      else if take 1 (path n) = '':'' then
        (case splitFromFirstSlash p of
           (cp, np) \<Rightarrow>
             if np = [] then (handler n, AList.update (drop 1 (path n)) cp ps)
             else find_loop (push_children n np ((n, p, True) # st))
                    (AList.update (drop 1 (path n)) cp ps))
      else if path n = p then
        (if handler n = None then
           (if map_of (children n) ''*'' \<noteq> None
            then find_loop (push_children n [] ((n, p, True) # st)) ps
            else find_loop st ps)
         else (handler n, ps))
      else if longestCommonPrefix (path n) p \<noteq> length (path n) then find_loop st ps
      else find_loop
             (push_children n (drop (longestCommonPrefix (path n) p) p) ((n, p, True) # st)) ps)"
    by (rule find_loop.simps(2))
  have R: "find_loop ((n', p, v) # st0) ps =
     (if v then
        find_loop st0 (if take 1 (path n) = '':'' then AList.delete (drop 1 (path n)) ps else ps)
      else if take 1 (path n) = ''*'' then
        (handler n, if length (path n) > 1 then AList.update (drop 1 (path n)) p ps else ps)
      else if take 1 (path n) = '':'' then
        (case splitFromFirstSlash p of
           (cp, np) \<Rightarrow>
             if np = [] then (handler n, AList.update (drop 1 (path n)) cp ps)
             else find_loop (push_children n' np ((n', p, True) # st0))
                    (AList.update (drop 1 (path n)) cp ps))
      else if path n = p then
        (if handler n = None then
           (if map_of (children n) ''*'' \<noteq> None
            then find_loop (push_children n' [] ((n', p, True) # st0)) ps
            else find_loop st0 ps)
         else (handler n, ps))
      else if longestCommonPrefix (path n) p \<noteq> length (path n) then find_loop st0 ps
      else find_loop
             (push_children n' (drop (longestCommonPrefix (path n) p) p) ((n', p, True) # st0))
             ps)"
    by (subst find_loop.simps(2)) (simp only: f star)
  show ?case
    unfolding st'
  proof (cases v)
    case True
    from "2.IH"(1) [OF True r] show "find_loop ((n, p, v) # st) ps = find_loop ((n', p, v) # st0) ps"
      unfolding L R by (simp only: if_P [OF True])
  next
    case nv: False
    show "find_loop ((n, p, v) # st) ps = find_loop ((n', p, v) # st0) ps"
    proof (cases "take 1 (path n) = ''*''")
      case True
      show ?thesis unfolding L R by (simp only: if_not_P [OF nv] if_P [OF True])
    next
      case ns: False
      show ?thesis
      proof (cases "take 1 (path n) = '':''")
        case colon: True
        obtain cp np where sp: "splitFromFirstSlash p = (cp, np)"
          by (cases "splitFromFirstSlash p")
        show ?thesis
        proof (cases "np = []")
          case True
          show ?thesis
            unfolding L R by (simp only: if_not_P [OF nv] if_not_P [OF ns] if_P [OF colon] sp prod.case if_P [OF True])
        next
          case False
          from "2.IH"(2) [OF nv ns colon sp [symmetric] False pc]
          show ?thesis
            unfolding L R by (simp only: if_not_P [OF nv] if_not_P [OF ns] if_P [OF colon] sp prod.case if_not_P [OF False])
        qed
      next
        case nc: False
        show ?thesis
        proof (cases "path n = p")
          case eq: True
          show ?thesis
          proof (cases "handler n = None")
            case hn: True
            show ?thesis
            proof (cases "map_of (children n) ''*'' \<noteq> None")
              case True
              from "2.IH"(3) [OF nv ns nc eq hn True pc]
              show ?thesis
                unfolding L R by (simp only: if_not_P [OF nv] if_not_P [OF ns] if_not_P [OF nc] if_P [OF eq] if_P [OF hn] if_P [OF True])
            next
              case False
              from "2.IH"(4) [OF nv ns nc eq hn False r]
              show ?thesis
                unfolding L R by (simp only: if_not_P [OF nv] if_not_P [OF ns] if_not_P [OF nc] if_P [OF eq] if_P [OF hn] if_not_P [OF False])
            qed
          next
            case False
            show ?thesis
              unfolding L R by (simp only: if_not_P [OF nv] if_not_P [OF ns] if_not_P [OF nc] if_P [OF eq] if_not_P [OF False])
          qed
        next
          case ne: False
          show ?thesis
          proof (cases "longestCommonPrefix (path n) p \<noteq> length (path n)")
            case True
            from "2.IH"(5) [OF nv ns nc ne True r]
            show ?thesis
              unfolding L R by (simp only: if_not_P [OF nv] if_not_P [OF ns] if_not_P [OF nc] if_not_P [OF ne] if_P [OF True])
          next
            case False
            from "2.IH"(6) [OF nv ns nc ne False pc]
            show ?thesis
              unfolding L R by (simp only: if_not_P [OF nv] if_not_P [OF ns] if_not_P [OF nc] if_not_P [OF ne] if_not_P [OF False])
          qed
        qed
      qed
    qed
  qed
qed

lemma find_radix_alike: "alike t t' \<Longrightarrow> find_radix t p = find_radix t' p"
  unfolding find_radix_def by (rule find_loop_alike) (simp add: alike_entry_def)


subsection \<open>What a registration adds to the tree\<close>

lemma handlers_in_Un [simp]: "handlers_in (A \<union> B) = handlers_in A \<union> handlers_in B"
  by (auto simp: handlers_in_def)

lemma handlers_in_insert_None [simp]: "handlers_in (insert (s, None) A) = handlers_in A"
  by (auto simp: handlers_in_def)

lemma handlers_in_insert_Some [simp]:
  "handlers_in (insert (s, Some x) A) = insert (s, x) (handlers_in A)"
  by (auto simp: handlers_in_def)

lemma handlers_in_empty [simp]: "handlers_in {} = {}"
  by (simp add: handlers_in_def)

lemma handlers_in_mono: "A \<subseteq> B \<Longrightarrow> handlers_in A \<subseteq> handlers_in B"
  by (auto simp: handlers_in_def)

lemma set_update_distinct:
  "distinct (map fst al) \<Longrightarrow>
   set (AList.update k v al) = insert (k, v) {x \<in> set al. fst x \<noteq> k}"
  by (induction al) (auto simp: image_iff)

text \<open>The nodes of \<open>n\<close> outside the child under the key \<open>k\<close>.\<close>

definition rest :: "string \<Rightarrow> 'h radix \<Rightarrow> string \<Rightarrow> (string \<times> 'h option) set" where
  "rest acc n k =
     insert (acc @ path n, handler n)
       (\<Union>(k', c) \<in> {x \<in> set (children n). fst x \<noteq> k}. nodes (acc @ path n) c)"

lemma keyed_distinct: "keyed n \<Longrightarrow> distinct (map fst (children n))"
  by (subst (asm) keyed_unfold) simp

lemma nodes_update:
  "keyed n \<Longrightarrow>
   nodes acc (Radix (path n) (AList.update k c' (children n)) (handler n)) =
     rest acc n k \<union> nodes (acc @ path n) c'"
  by (subst nodes_unfold) (auto simp: set_update_distinct [OF keyed_distinct] rest_def)

lemma nodes_rest_Some:
  assumes "keyed n" and "map_of (children n) k = Some c"
  shows "nodes acc n = rest acc n k \<union> nodes (acc @ path n) c"
proof -
  from assms(2) have "AList.update k c (children n) = children n"
    by (rule update_triv)
  with nodes_update [OF assms(1), of acc k c] show ?thesis by (cases n) simp
qed

lemma nodes_rest_None: "map_of (children n) k = None \<Longrightarrow> nodes acc n = rest acc n k"
proof -
  assume "map_of (children n) k = None"
  then have "{x \<in> set (children n). fst x \<noteq> k} = set (children n)"
    by (auto simp: map_of_eq_None_iff image_iff)
  then show ?thesis by (subst nodes_unfold) (simp add: rest_def)
qed

lemma keyed_update:
  assumes "keyed n" and "keyed c" and "path c \<noteq> []" and "k = take 1 (path c)"
  shows "keyed (Radix (path n) (AList.update k c (children n)) (handler n))"
proof -
  have "\<forall>(k', c') \<in> set (AList.update k c (children n)).
      k' = take 1 (path c') \<and> path c' \<noteq> [] \<and> keyed c'"
    using set_update_subset [of k c "children n"] assms
    by (subst (asm) keyed_unfold) auto
  with keyed_distinct [OF assms(1)] show ?thesis
    by (subst keyed_unfold) (simp add: distinct_update)
qed

lemma keyed_split: "keyed n \<Longrightarrow> i < length (path n) \<Longrightarrow> keyed (split_node n i)"
  by (cases n) (simp add: split_node_def keyed.simps)

lemma nodes_split:
  "nodes acc (split_node n i) = insert (acc @ take i (path n), None) (nodes acc n)"
  by (cases n) (simp add: split_node_def nodes.simps)


text \<open>
  As before, \<open>merge\<close> and \<open>insert\<close> return a node \<open>d\<close> and the chain \<open>fs\<close> of its
  parents. \<open>carries\<close>: whatever node is put in the place of \<open>d\<close>, the plugged tree is
  \<open>keyed\<close> and has the nodes of the chain and those of the new node. \<open>reaches\<close>: the
  operation with the accumulated label \<open>w\<close> keeps every label, adds the label \<open>w\<close>
  and at most the common prefix of \<open>w\<close> and a label there was, and binds \<open>w\<close> when it
  is given a handler.
\<close>

definition carries ::
  "string \<Rightarrow> 'h radix \<Rightarrow> 'h frame list \<Rightarrow> string \<Rightarrow> 'h radix \<Rightarrow> bool" where
  "carries acc n fs accd d \<longleftrightarrow>
     (\<exists>F. \<forall>d'. keyed d' \<and> path d' \<noteq> [] \<and> take 1 (path d') = take 1 (path d) \<longrightarrow>
        keyed (plug fs d') \<and> path (plug fs d') \<noteq> [] \<and>
        take 1 (path (plug fs d')) = take 1 (path n) \<and>
        nodes acc (plug fs d') = F \<union> nodes accd d')"

lemma carries_Nil: "take 1 (path d) = take 1 (path n) \<Longrightarrow> carries acc n [] acc d"
  unfolding carries_def by (intro exI [of _ "{}"]) simp

lemma carries_frame:
  assumes n: "keyed n" and ne: "path n \<noteq> []" and k: "k = take 1 (path c)"
    and r: "carries (acc @ path n) c fs accd d"
  shows "carries acc n (fs @ [(n, k)]) accd d"
proof -
  from r obtain F where F: "\<And>d'. keyed d' \<Longrightarrow> path d' \<noteq> [] \<Longrightarrow>
      take 1 (path d') = take 1 (path d) \<Longrightarrow>
      keyed (plug fs d') \<and> path (plug fs d') \<noteq> [] \<and>
      take 1 (path (plug fs d')) = take 1 (path c) \<and>
      nodes (acc @ path n) (plug fs d') = F \<union> nodes accd d'"
    unfolding carries_def by blast
  show ?thesis
    unfolding carries_def
  proof (intro exI [of _ "rest acc n k \<union> F"] allI impI)
    fix d' :: "'a radix"
    assume a: "keyed d' \<and> path d' \<noteq> [] \<and> take 1 (path d') = take 1 (path d)"
    from F [of d'] a have p: "keyed (plug fs d')" "path (plug fs d') \<noteq> []"
      "take 1 (path (plug fs d')) = take 1 (path c)"
      "nodes (acc @ path n) (plug fs d') = F \<union> nodes accd d'"
      by simp_all
    from keyed_update [OF n p(1,2), of k] k p(3)
    have "keyed (Radix (path n) (AList.update k (plug fs d') (children n)) (handler n))"
      by simp
    moreover from nodes_update [OF n, of acc k "plug fs d'"] p(4)
    have "nodes acc (Radix (path n) (AList.update k (plug fs d') (children n)) (handler n)) =
        (rest acc n k \<union> F) \<union> nodes accd d'"
      by (simp add: Un_assoc)
    ultimately show "keyed (plug (fs @ [(n, k)]) d') \<and> path (plug (fs @ [(n, k)]) d') \<noteq> [] \<and>
        take 1 (path (plug (fs @ [(n, k)]) d')) = take 1 (path n) \<and>
        nodes acc (plug (fs @ [(n, k)]) d') = (rest acc n k \<union> F) \<union> nodes accd d'"
      using ne by (simp add: plug_append)
  qed
qed

lemma carries_top:
  "carries acc m fs accd d \<Longrightarrow> take 1 (path m) = take 1 (path n) \<Longrightarrow>
   carries acc n fs accd d"
  unfolding carries_def by simp

lemma carries_push:
  assumes c: "carries acc n fs accd d" and d: "keyed d" "path d \<noteq> []"
    and d': "keyed d'" "path d' \<noteq> []" "take 1 (path d') = take 1 (path d)"
  shows "keyed (plug fs d')" and "path (plug fs d') \<noteq> []"
    and "take 1 (path (plug fs d')) = take 1 (path n)"
    and "nodes accd d' \<subseteq> nodes acc (plug fs d')"
    and "labels accd d \<subseteq> labels accd d' \<Longrightarrow>
         labels acc (plug fs d') = labels acc (plug fs d) \<union> labels accd d'"
    and "bound accd d \<subseteq> bound accd d' \<Longrightarrow>
         bound acc (plug fs d') = bound acc (plug fs d) \<union> bound accd d'"
proof -
  from c obtain F where F: "\<And>d'. keyed d' \<Longrightarrow> path d' \<noteq> [] \<Longrightarrow>
      take 1 (path d') = take 1 (path d) \<Longrightarrow>
      keyed (plug fs d') \<and> path (plug fs d') \<noteq> [] \<and>
      take 1 (path (plug fs d')) = take 1 (path n) \<and>
      nodes acc (plug fs d') = F \<union> nodes accd d'"
    unfolding carries_def by blast
  from F [OF d] have 1: "nodes acc (plug fs d) = F \<union> nodes accd d" by simp
  from F [OF d'] have 2: "nodes acc (plug fs d') = F \<union> nodes accd d'" by simp
  from F [OF d'] show "keyed (plug fs d')" "path (plug fs d') \<noteq> []"
    "take 1 (path (plug fs d')) = take 1 (path n)"
    by simp_all
  from 2 show "nodes accd d' \<subseteq> nodes acc (plug fs d')" by simp
  show "labels acc (plug fs d') = labels acc (plug fs d) \<union> labels accd d'"
    if "labels accd d \<subseteq> labels accd d'"
    using that unfolding labels_def 1 2 by (auto simp: image_Un)
  show "bound acc (plug fs d') = bound acc (plug fs d) \<union> bound accd d'"
    if "bound accd d \<subseteq> bound accd d'"
    using that unfolding bound_def 1 2 by auto
qed

definition reaches ::
  "string \<Rightarrow> 'h radix \<Rightarrow> string \<Rightarrow> 'h option \<Rightarrow> 'h frame list \<Rightarrow> 'h radix \<Rightarrow> bool" where
  "reaches acc n w h fs d \<longleftrightarrow>
     (\<exists>accd. accd @ path d = w \<and> keyed d \<and> path d \<noteq> [] \<and> carries acc n fs accd d \<and>
        labels acc n \<subseteq> labels acc (plug fs d) \<and>
        labels acc (plug fs d) \<subseteq> labels acc n \<union> insert w (lcps w ` labels acc n) \<and>
        bound acc (plug fs d) = bound acc n \<union> Pair w ` set_option h)"

lemma reachesI:
  "accd @ path d = w \<Longrightarrow> keyed d \<Longrightarrow> path d \<noteq> [] \<Longrightarrow> carries acc n fs accd d \<Longrightarrow>
   labels acc n \<subseteq> labels acc (plug fs d) \<Longrightarrow>
   labels acc (plug fs d) \<subseteq> labels acc n \<union> insert w (lcps w ` labels acc n) \<Longrightarrow>
   bound acc (plug fs d) = bound acc n \<union> Pair w ` set_option h \<Longrightarrow>
   reaches acc n w h fs d"
  unfolding reaches_def by blast

lemma handlers_in_single: "handlers_in {(w, h)} = Pair w ` set_option h"
  by (cases h) (auto simp: handlers_in_def)

lemma keyed_handler: "keyed (Radix (path m) (children m) h) \<longleftrightarrow> keyed m"
  by (subst keyed_unfold, subst (2) keyed_unfold) simp

lemma reaches_here:
  assumes m: "keyed m" "path m \<noteq> []" and h: "h \<noteq> None \<longrightarrow> handler m = None"
    and d: "d = (if h \<noteq> None then Radix (path m) (children m) h else m)"
  shows "reaches acc m (acc @ path m) h [] d"
proof (rule reachesI [of acc])
  have pd: "path d = path m" and cd: "children d = children m" by (simp_all add: d)
  show "acc @ path d = acc @ path m" by (simp add: pd)
  show "keyed d" using m(1) by (simp add: d keyed_handler)
  show "path d \<noteq> []" using m(2) by (simp add: pd)
  show "carries acc m [] acc d" by (rule carries_Nil) (simp add: pd)
  have n: "nodes acc d =
      insert (acc @ path m, handler d) (\<Union>(k, c) \<in> set (children m). nodes (acc @ path m) c)"
    by (subst nodes_unfold) (simp add: pd cd)
  have n0: "nodes acc m =
      insert (acc @ path m, handler m) (\<Union>(k, c) \<in> set (children m). nodes (acc @ path m) c)"
    by (rule nodes_unfold)
  have l: "labels acc d = labels acc m"
    unfolding labels_def n n0 by simp
  then show "labels acc m \<subseteq> labels acc (plug [] d)"
    and "labels acc (plug [] d) \<subseteq> labels acc m \<union>
      insert (acc @ path m) (lcps (acc @ path m) ` labels acc m)"
    by auto
  show "bound acc (plug [] d) = bound acc m \<union> Pair (acc @ path m) ` set_option h"
  proof (cases h)
    case None
    then show ?thesis by (simp add: d)
  next
    case (Some x)
    with h have "handler m = None" "handler d = Some x" by (simp_all add: d)
    then show ?thesis
      by (simp add: bound_def n n0 Some)
  qed
qed

lemma reaches_leaf:
  assumes n: "keyed n" "path n \<noteq> []" and k: "map_of (children n) (take 1 pth) = None"
    and ne: "pth \<noteq> []"
  shows "reaches acc n (acc @ path n @ pth) h [(n, take 1 pth)] (Radix pth [] h)"
proof (rule reachesI [of "acc @ path n"])
  let ?d = "Radix pth [] h"
  let ?k = "take 1 pth"
  show "(acc @ path n) @ path ?d = acc @ path n @ pth" by simp
  show "keyed ?d" by (subst keyed_unfold) simp
  show "path ?d \<noteq> []" using ne by simp
  have "carries (acc @ path n) ?d [] (acc @ path n) ?d" by (rule carries_Nil) simp
  from carries_frame [OF n _ this, of ?k] show "carries acc n [(n, ?k)] (acc @ path n) ?d"
    by simp
  have leaf: "nodes (acc @ path n) ?d = {(acc @ path n @ pth, h)}"
    by (subst nodes_unfold) simp
  have p: "nodes acc (plug [(n, ?k)] ?d) = insert (acc @ path n @ pth, h) (nodes acc n)"
    using nodes_update [OF n(1), of acc ?k ?d] nodes_rest_None [OF k, of acc]
    by (simp add: leaf)
  show "labels acc n \<subseteq> labels acc (plug [(n, ?k)] ?d)"
    and "labels acc (plug [(n, ?k)] ?d) \<subseteq> labels acc n \<union>
      insert (acc @ path n @ pth) (lcps (acc @ path n @ pth) ` labels acc n)"
    unfolding labels_def p by auto
  have "handlers_in (insert (acc @ path n @ pth, h) (nodes acc n)) =
      handlers_in (nodes acc n) \<union> handlers_in {(acc @ path n @ pth, h)}"
    using handlers_in_Un [of "nodes acc n" "{(acc @ path n @ pth, h)}"] by simp
  then show "bound acc (plug [(n, ?k)] ?d) =
      bound acc n \<union> Pair (acc @ path n @ pth) ` set_option h"
    unfolding bound_def p by (simp add: handlers_in_single)
qed

lemma reaches_frame:
  assumes n: "keyed n" "path n \<noteq> []" and k: "map_of (children n) k = Some c"
    and r: "reaches (acc @ path n) c w h fs d"
  shows "reaches acc n w h (fs @ [(n, k)]) d"
proof -
  from k have mem: "(k, c) \<in> set (children n)" by (rule map_of_SomeD)
  note c = keyed_child [OF n(1) mem]
  from r obtain accd where accd: "accd @ path d = w" "keyed d" "path d \<noteq> []"
    "carries (acc @ path n) c fs accd d"
    "labels (acc @ path n) c \<subseteq> labels (acc @ path n) (plug fs d)"
    "labels (acc @ path n) (plug fs d) \<subseteq>
       labels (acc @ path n) c \<union> insert w (lcps w ` labels (acc @ path n) c)"
    "bound (acc @ path n) (plug fs d) = bound (acc @ path n) c \<union> Pair w ` set_option h"
    unfolding reaches_def by blast
  have p: "nodes acc (plug (fs @ [(n, k)]) d) = rest acc n k \<union> nodes (acc @ path n) (plug fs d)"
    using nodes_update [OF n(1), of acc k "plug fs d"] by (simp add: plug_append)
  have q: "nodes acc n = rest acc n k \<union> nodes (acc @ path n) c"
    by (rule nodes_rest_Some [OF n(1) k])
  show ?thesis
  proof (rule reachesI [of accd])
    show "carries acc n (fs @ [(n, k)]) accd d"
      by (rule carries_frame [OF n c(1) accd(4)])
    show "labels acc n \<subseteq> labels acc (plug (fs @ [(n, k)]) d)"
      using accd(5) unfolding labels_def p q by (auto simp: image_Un)
    show "labels acc (plug (fs @ [(n, k)]) d) \<subseteq> labels acc n \<union> insert w (lcps w ` labels acc n)"
      using accd(6) unfolding labels_def p q by (auto simp: image_Un)
    show "bound acc (plug (fs @ [(n, k)]) d) = bound acc n \<union> Pair w ` set_option h"
      using accd(7) unfolding bound_def p q by auto
  qed (rule accd)+
qed

lemma lcps_idem: "lcps w (lcps w x) = lcps w x"
proof -
  have "prefix (lcps w x) w" unfolding lcps_def by (rule take_is_prefix)
  from lcps_prefix [OF this] show ?thesis by (simp add: lcps_commute)
qed

lemma reaches_split:
  assumes r: "reaches acc m w h fs d" and t: "take 1 (path m) = take 1 (path n)"
    and lo: "labels acc n \<subseteq> labels acc m"
    and up: "labels acc m \<subseteq> insert (lcps w x) (labels acc n)" and x: "x \<in> labels acc n"
    and b: "bound acc m = bound acc n"
  shows "reaches acc n w h fs d"
proof -
  from r obtain accd where accd: "accd @ path d = w" "keyed d" "path d \<noteq> []"
    "carries acc m fs accd d"
    "labels acc m \<subseteq> labels acc (plug fs d)"
    "labels acc (plug fs d) \<subseteq> labels acc m \<union> insert w (lcps w ` labels acc m)"
    "bound acc (plug fs d) = bound acc m \<union> Pair w ` set_option h"
    unfolding reaches_def by blast
  have "lcps w ` labels acc m \<subseteq> lcps w ` labels acc n"
  proof
    fix y assume "y \<in> lcps w ` labels acc m"
    then obtain z where z: "z \<in> labels acc m" "y = lcps w z" by blast
    show "y \<in> lcps w ` labels acc n"
    proof (cases "z \<in> labels acc n")
      case True
      with z show ?thesis by blast
    next
      case False
      with z up have "z = lcps w x" by blast
      with z x show ?thesis by (simp add: lcps_idem)
    qed
  qed
  with accd(6) up x have "labels acc (plug fs d) \<subseteq> labels acc n \<union> insert w (lcps w ` labels acc n)"
    by blast
  moreover from accd(5) lo have "labels acc n \<subseteq> labels acc (plug fs d)" by blast
  moreover from accd(7) b have "bound acc (plug fs d) = bound acc n \<union> Pair w ` set_option h"
    by simp
  moreover from accd(4) t have "carries acc n fs accd d" by (rule carries_top)
  ultimately show ?thesis
    using accd(1-3) by (intro reachesI [of accd])
qed


lemma merge_node_keyed:
  assumes k: "keyed n" and ne: "pth \<noteq> []" and t1: "take 1 pth = take 1 (path n)"
  shows "keyed (merge_node n pth)"
    and "path (merge_node n pth) = take (merge_index n pth) pth"
    and "path (merge_node n pth) \<noteq> []"
    and "take 1 (path (merge_node n pth)) = take 1 (path n)"
    and "labels acc n \<subseteq> labels acc (merge_node n pth)"
    and "labels acc (merge_node n pth) \<subseteq> insert (lcps (acc @ pth) (acc @ path n)) (labels acc n)"
    and "bound acc (merge_node n pth) = bound acc n"
proof -
  let ?i = "merge_index n pth"
  have pos: "0 < ?i"
    unfolding merge_index_def by (rule lcp_pos [OF ne t1])
  have pre: "take ?i pth = take ?i (path n)"
    unfolding merge_index_def by (rule lcp_take)
  have le: "?i \<le> length (path n)"
    unfolding merge_index_def by (rule lcp_le)
  show "keyed (merge_node n pth)"
    using k by (simp add: merge_node_def keyed_split)
  show p: "path (merge_node n pth) = take ?i pth"
    using pre le by (simp add: merge_node_def split_node_def)
  from pos ne show "path (merge_node n pth) \<noteq> []"
    unfolding p by (cases pth) auto
  from pos show "take 1 (path (merge_node n pth)) = take 1 (path n)"
    unfolding p pre by (cases "path n") (auto simp: take_Cons')
  have "lcps (acc @ pth) (acc @ path n) = acc @ take ?i (path n)"
    unfolding lcps_append using pre by (simp add: lcps_def merge_index_def)
  then have nd: "nodes acc (merge_node n pth) = nodes acc n \<or>
      nodes acc (merge_node n pth) =
        insert (lcps (acc @ pth) (acc @ path n), None) (nodes acc n)"
    by (simp add: merge_node_def nodes_split)
  then show "labels acc n \<subseteq> labels acc (merge_node n pth)"
    and "labels acc (merge_node n pth) \<subseteq> insert (lcps (acc @ pth) (acc @ path n)) (labels acc n)"
    unfolding labels_def by auto
  from nd show "bound acc (merge_node n pth) = bound acc n"
    unfolding bound_def by auto
qed

lemma merge_loop_reaches:
  "merge_loop n pth h = Inr (fs, d) \<Longrightarrow> keyed n \<Longrightarrow> pth \<noteq> [] \<Longrightarrow>
   take 1 pth = take 1 (path n) \<Longrightarrow> reaches acc n (acc @ pth) h fs d"
proof (induction n pth h arbitrary: fs d acc rule: merge_loop_induct)
  case (step n pth h)
  let ?i = "merge_index n pth"
  let ?n1 = "merge_node n pth"
  let ?k = "take 1 (drop ?i pth)"
  note res = step.prems(1) and k = step.prems(2) and ne = step.prems(3) and t1 = step.prems(4)
  note f = merge_node_keyed [OF k ne t1]
  have whole: "acc @ path ?n1 @ drop ?i pth = acc @ pth"
    by (simp add: f(2))
  have "reaches acc ?n1 (acc @ pth) h fs d"
  proof (cases "?i < length pth")
    case True
    then have dne: "drop ?i pth \<noteq> []" by simp
    show ?thesis
    proof (cases "map_of (children ?n1) ?k")
      case None
      with res True have fs: "fs = [(?n1, ?k)]" and d: "d = Radix (drop ?i pth) [] h"
        by (subst (asm) merge_loop_unfold, simp)+
      from reaches_leaf [OF f(1,3) None dne, of acc h] show ?thesis
        unfolding fs d whole .
    next
      case (Some c)
      with res True obtain fs' where rec: "merge_loop c (drop ?i pth) h = Inr (fs', d)"
        and fs: "fs = fs' @ [(?n1, ?k)]"
        by (subst (asm) merge_loop_unfold) (auto split: sum.splits)
      from Some have mem: "(?k, c) \<in> set (children ?n1)" by (rule map_of_SomeD)
      note c = keyed_child [OF f(1) mem]
      from step.IH [OF True Some rec c(3) dne c(1), of "acc @ path ?n1"]
      have "reaches (acc @ path ?n1) c (acc @ pth) h fs' d"
        using whole by simp
      from reaches_frame [OF f(1,3) Some this] show ?thesis
        unfolding fs .
    qed
  next
    case False
    with f(2) lcp_le(1) [of pth "path n"] have p1: "path ?n1 = pth"
      by (simp add: merge_index_def)
    from res False have fs: "fs = []"
      and d: "d = (if h \<noteq> None then Radix (path ?n1) (children ?n1) h else ?n1)"
      and h: "h \<noteq> None \<longrightarrow> handler ?n1 = None"
      by (subst (asm) merge_loop_unfold, auto split: if_splits)+
    from reaches_here [OF f(1,3) h d, of acc] show ?thesis
      unfolding fs p1 .
  qed
  then show ?case
    by (rule reaches_split [OF _ f(4,5,6) labels_root f(7)])
qed

lemma insert_radix_reaches:
  assumes res: "insert_radix n pth h = Inr (fs, d)"
    and n: "keyed n" "path n \<noteq> []" and ne: "pth \<noteq> []"
  shows "reaches acc n (acc @ path n @ pth) h fs d"
proof (cases "map_of (children n) (take 1 pth)")
  case None
  with res have fs: "fs = [(n, take 1 pth)]" and d: "d = Radix pth [] h"
    by (simp_all add: insert_radix_def)
  show ?thesis unfolding fs d by (rule reaches_leaf [OF n None ne])
next
  case (Some c)
  with res obtain fs' where m: "merge c pth h = Inr (fs', d)"
    and fs: "fs = fs' @ [(n, take 1 pth)]"
    by (auto simp: insert_radix_def split: sum.splits)
  from Some have mem: "(take 1 pth, c) \<in> set (children n)" by (rule map_of_SomeD)
  note c = keyed_child [OF n(1) mem]
  from m c(2) ne have "merge_loop c pth h = Inr (fs', d)"
    by (simp add: merge_def)
  from merge_loop_reaches [OF this c(3) ne c(1), of "acc @ path n"]
  have "reaches (acc @ path n) c (acc @ path n @ pth) h fs' d" by simp
  from reaches_frame [OF n Some this] show ?thesis unfolding fs .
qed


text \<open>
  The prefixes of a pattern at which \<open>add\<close> ends a piece (its leading static part, every
  static run, every marker with its name, and the pattern itself); each becomes the
  accumulated label of a node. \<open>grown\<close>: the node \<open>n'\<close> is \<open>n\<close> after the rest of a
  registration: it has the labels of \<open>n\<close> and the piece ends \<open>E\<close>, no label outside the
  closed sets that contain those, and one more bound label.
\<close>

function piece_ends :: "string \<Rightarrow> nat \<Rightarrow> string set" where
  "piece_ends pat i =
     (if i < length pat then
        (if isWildcard (pat ! i) then
           (case scan_name pat (Suc i) of
              Inl e \<Rightarrow> {}
            | Inr i2 \<Rightarrow> insert (take i pat) (insert (take i2 pat) (piece_ends pat (Suc i2))))
         else piece_ends pat (Suc i))
      else {pat})"
  by pat_completeness auto
termination
  by (relation "measure (\<lambda>(pat, i). Suc (length pat) - i)")
    (auto dest: scan_name_ge scan_name_ge [OF sym])

declare piece_ends.simps [simp del]

definition cuts :: "string \<Rightarrow> string set" where
  "cuts pat = insert (take (skip_static pat) pat) (piece_ends pat (skip_static pat))"

definition grown :: "string \<Rightarrow> 'h radix \<Rightarrow> 'h radix \<Rightarrow> string set \<Rightarrow> string \<times> 'h \<Rightarrow> bool" where
  "grown acc n n' E r \<longleftrightarrow>
     keyed n' \<and> path n' \<noteq> [] \<and> take 1 (path n') = take 1 (path n) \<and>
     labels acc n \<subseteq> labels acc n' \<and> E \<subseteq> labels acc n' \<and>
     (\<forall>Y. closed Y \<and> labels acc n \<subseteq> Y \<and> E \<subseteq> Y \<longrightarrow> labels acc n' \<subseteq> Y) \<and>
     bound acc n' = insert r (bound acc n)"

lemma closed_lcps: "closed Y \<Longrightarrow> A \<subseteq> Y \<Longrightarrow> w \<in> Y \<Longrightarrow> lcps w ` A \<subseteq> Y"
  by (auto simp: closed_def)

lemma nodes_labels_mono: "nodes a m \<subseteq> nodes b m' \<Longrightarrow> labels a m \<subseteq> labels b m'"
  unfolding labels_def by blast

lemma nodes_bound_mono: "nodes a m \<subseteq> nodes b m' \<Longrightarrow> bound a m \<subseteq> bound b m'"
  unfolding bound_def by (rule handlers_in_mono)

lemma reaches_final:
  assumes "reaches acc n w (Some x) fs d"
  shows "grown acc n (plug fs d) {w} (w, x)"
proof -
  from assms obtain accd where accd: "accd @ path d = w" "keyed d" "path d \<noteq> []"
    "carries acc n fs accd d"
    "labels acc n \<subseteq> labels acc (plug fs d)"
    "labels acc (plug fs d) \<subseteq> labels acc n \<union> insert w (lcps w ` labels acc n)"
    "bound acc (plug fs d) = bound acc n \<union> Pair w ` set_option (Some x)"
    unfolding reaches_def by blast
  note cp = carries_push [OF accd(4) accd(2,3) accd(2,3) refl]
  from nodes_labels_mono [OF cp(4)] labels_root [of accd d] accd(1)
  have w: "w \<in> labels acc (plug fs d)" by auto
  have "labels acc (plug fs d) \<subseteq> Y" if "closed Y" "labels acc n \<subseteq> Y" "w \<in> Y" for Y
    using accd(6) closed_lcps [OF that] that(2,3) by blast
  with cp(1-3) accd(5) w accd(7) show ?thesis
    unfolding grown_def by simp
qed

lemma reaches_grown:
  assumes r: "reaches acc n w None fs d"
    and g: "\<And>accd. accd @ path d = w \<Longrightarrow> keyed d \<Longrightarrow> path d \<noteq> [] \<Longrightarrow> grown accd d d' E r"
  shows "grown acc n (plug fs d') (insert w E) r"
proof -
  from r obtain accd where accd: "accd @ path d = w" "keyed d" "path d \<noteq> []"
    "carries acc n fs accd d"
    "labels acc n \<subseteq> labels acc (plug fs d)"
    "labels acc (plug fs d) \<subseteq> labels acc n \<union> insert w (lcps w ` labels acc n)"
    "bound acc (plug fs d) = bound acc n"
    unfolding reaches_def by auto
  from g [OF accd(1-3)] have g0: "keyed d'" "path d' \<noteq> []" "take 1 (path d') = take 1 (path d)"
    "labels accd d \<subseteq> labels accd d'" "E \<subseteq> labels accd d'"
    "\<And>Y. closed Y \<Longrightarrow> labels accd d \<subseteq> Y \<Longrightarrow> E \<subseteq> Y \<Longrightarrow> labels accd d' \<subseteq> Y"
    "bound accd d' = insert r (bound accd d)"
    unfolding grown_def by auto
  note cs = carries_push [OF accd(4) accd(2,3) accd(2,3) refl]
  note cp = carries_push [OF accd(4) accd(2,3) g0(1-3)]
  have ld: "labels accd d \<subseteq> labels acc (plug fs d)" by (rule nodes_labels_mono [OF cs(4)])
  have bd: "bound accd d \<subseteq> bound acc n"
    using nodes_bound_mono [OF cs(4)] accd(7) by simp
  have l: "labels acc (plug fs d') = labels acc (plug fs d) \<union> labels accd d'"
    by (rule cp(5) [OF g0(4)])
  have b: "bound acc (plug fs d') = bound acc (plug fs d) \<union> bound accd d'"
    by (rule cp(6)) (use g0(7) in auto)
  have w: "w \<in> labels accd d'"
    using labels_root [of accd d] accd(1) g0(4) by auto
  have up: "labels acc (plug fs d') \<subseteq> Y"
    if Y: "closed Y" "labels acc n \<subseteq> Y" "insert w E \<subseteq> Y" for Y
  proof -
    from Y have wy: "w \<in> Y" by simp
    from accd(6) closed_lcps [OF Y(1,2) wy] Y(2) wy have 1: "labels acc (plug fs d) \<subseteq> Y"
      by blast
    with ld have "labels accd d \<subseteq> Y" by blast
    from g0(6) [OF Y(1) this] Y(3) have "labels accd d' \<subseteq> Y" by simp
    with 1 show ?thesis unfolding l by simp
  qed
  have "bound acc (plug fs d') = insert r (bound acc n)"
    unfolding b accd(7) g0(7) using bd by auto
  moreover have "labels acc n \<subseteq> labels acc (plug fs d')"
    using accd(5) unfolding l by blast
  moreover have "insert w E \<subseteq> labels acc (plug fs d')"
    using w g0(5) unfolding l by blast
  ultimately show ?thesis
    using cp(1-3) up unfolding grown_def by blast
qed

lemma add_loop_grown:
  "add_loop pat h i j n = Inr n' \<Longrightarrow> keyed n \<Longrightarrow> path n \<noteq> [] \<Longrightarrow>
   acc @ path n = take j pat \<Longrightarrow> j \<le> i \<Longrightarrow> j \<le> length pat \<Longrightarrow>
   grown acc n n' (piece_ends pat i) (pat, h)"
proof (induction "Suc (length pat) - i" arbitrary: i j n n' acc rule: less_induct)
  case less
  note res = less.prems(1) and k = less.prems(2) and nn = less.prems(3)
    and pos = less.prems(4) and ji = less.prems(5) and jl = less.prems(6)
  show ?case
  proof (cases "i < length pat")
    case False
    have pe: "piece_ends pat i = {pat}"
      using False by (subst piece_ends.simps) simp
    show ?thesis
    proof (cases "j = length pat")
      case True
      with res False nn have hn: "handler n = None"
        and n': "n' = Radix (path n) (children n) (Some h)"
        by (subst (asm) add_loop.simps, simp add: merge_def split: if_splits)+
      from reaches_here [OF k nn, of "Some h" n' acc] hn n'
      have "reaches acc n (acc @ path n) (Some h) [] n'" by simp
      from reaches_final [OF this] pos True show ?thesis by (simp add: pe)
    next
      case nj: False
      let ?pc = "slice j (length pat) pat"
      from res False nj obtain fs d where ins: "insert_radix n ?pc (Some h) = Inr (fs, d)"
        and n': "n' = plug fs d"
        by (subst (asm) add_loop.simps) (auto split: sum.splits)
      have ne: "?pc \<noteq> []"
        using nj jl by (simp add: slice_def)
      have "acc @ path n @ ?pc = pat"
        using pos take_slice [OF jl, of pat] by (metis append.assoc take_all order_refl)
      with insert_radix_reaches [OF ins k nn ne, of acc]
      have "reaches acc n pat (Some h) fs d" by simp
      from reaches_final [OF this] show ?thesis by (simp add: pe n')
    qed
  next
    case il: True
    show ?thesis
    proof (cases "isWildcard (pat ! i)")
      case False
      from res add_loop_skip [OF il False, of h j n]
      have r: "add_loop pat h (Suc i) j n = Inr n'" by simp
      have pe: "piece_ends pat i = piece_ends pat (Suc i)"
        using il False by (subst piece_ends.simps) simp
      from less.hyps [OF _ r k nn pos _ jl] il ji show ?thesis by (simp add: pe)
    next
      case w: True
      from add_loop_static_ok [OF il ji, of n] obtain fs1 n1 where
        st: "(if j \<noteq> i then insert_radix n (slice j i pat) None else Inr ([], n)) = Inr (fs1, n1)"
        by blast
      have r1: "reaches acc n (take i pat) None fs1 n1"
      proof (cases "j = i")
        case True
        with st have "fs1 = []" "n1 = n" by simp_all
        with reaches_here [OF k nn, of None n acc] pos True show ?thesis by simp
      next
        case False
        with st have ins: "insert_radix n (slice j i pat) None = Inr (fs1, n1)" by simp
        have ne: "slice j i pat \<noteq> []"
          using False ji il by (simp add: slice_def)
        have "acc @ path n @ slice j i pat = take i pat"
          using pos take_slice [OF ji, of pat] by (metis append.assoc)
        with insert_radix_reaches [OF ins k nn ne, of acc] show ?thesis by simp
      qed
      from add_loop_marker_result [OF res il w st] obtain i2 fs2 n2 n3 where
        sc: "scan_name pat (Suc i) = Inr i2"
        and ins: "insert_radix n1 (slice i i2 pat) None = Inr (fs2, n2)"
        and rec: "add_loop pat h (Suc i2) i2 n2 = Inr n3"
        and n': "n' = plug fs1 (plug fs2 n3)"
        by blast
      from scan_name_Inr [OF sc] il have i2: "i2 \<le> length pat" by auto
      from scan_name_ge [OF sc] have ii2: "i < i2" by simp
      have pe: "piece_ends pat i =
          insert (take i pat) (insert (take i2 pat) (piece_ends pat (Suc i2)))"
        using il w sc by (subst piece_ends.simps) simp
      show ?thesis
        unfolding n' pe
      proof (rule reaches_grown [OF r1])
        fix acc1
        assume pos1: "acc1 @ path n1 = take i pat" and k1: "keyed n1" and nn1: "path n1 \<noteq> []"
        have ne2: "slice i i2 pat \<noteq> []" using ii2 il by (simp add: slice_def)
        have "acc1 @ path n1 @ slice i i2 pat = take i2 pat"
          using pos1 take_slice [of i i2 pat] ii2 by (metis append.assoc less_imp_le)
        with insert_radix_reaches [OF ins k1 nn1 ne2, of acc1]
        have r2: "reaches acc1 n1 (take i2 pat) None fs2 n2" by simp
        show "grown acc1 n1 (plug fs2 n3) (insert (take i2 pat) (piece_ends pat (Suc i2)))
            (pat, h)"
        proof (rule reaches_grown [OF r2])
          fix acc2
          assume pos2: "acc2 @ path n2 = take i2 pat" and k2: "keyed n2"
            and nn2: "path n2 \<noteq> []"
          from less.hyps [OF _ rec k2 nn2 pos2 _ i2] il ii2
          show "grown acc2 n2 n3 (piece_ends pat (Suc i2)) (pat, h)" by simp
        qed
      qed
    qed
  qed
qed


lemma skip_static_prefix:
  assumes "take 1 pat = ''/''"
  shows "take (skip_static pat) pat \<noteq> []" and "take 1 (take (skip_static pat) pat) = ''/''"
    and "skip_static pat \<le> length pat"
proof -
  from skip_static_pos [OF assms] assms
  show "take (skip_static pat) pat \<noteq> []" and "take 1 (take (skip_static pat) pat) = ''/''"
    by (cases pat; auto)+
  show "skip_static pat \<le> length pat"
    unfolding skip_static_def by (rule length_takeWhile_le)
qed

lemma add_grown:
  assumes res: "add t pat h = Inr t'" and k: "keyed t" and rt: "take 1 (path t) = ''/''"
    and sl: "take 1 pat = ''/''"
  shows "grown [] t t' (cuts pat) (pat, h)"
proof -
  let ?i = "skip_static pat"
  let ?pre = "take ?i pat"
  note p = skip_static_prefix [OF sl]
  from res obtain fs n1 n2 where m: "merge t ?pre None = Inr (fs, n1)"
    and rec: "add_loop pat h ?i ?i n1 = Inr n2" and t': "t' = plug fs n2"
    by (auto simp: add_def Let_def split: sum.splits)
  from rt have "path t \<noteq> []" by auto
  with m p(1) have "merge_loop t ?pre None = Inr (fs, n1)"
    by (simp add: merge_def)
  from merge_loop_reaches [OF this k p(1), of "[]"] p(2) rt
  have r: "reaches [] t ?pre None fs n1" by simp
  show ?thesis
    unfolding t' cuts_def
  proof (rule reaches_grown [OF r])
    fix accd
    assume "accd @ path n1 = ?pre" and "keyed n1" and "path n1 \<noteq> []"
    with p(3) show "grown accd n1 n2 (piece_ends pat ?i) (pat, h)"
      by (intro add_loop_grown [OF rec]) auto
  qed
qed

lemma add_first:
  assumes res: "add empty_radix pat h = Inr t'" and sl: "take 1 pat = ''/''"
  shows "keyed t'" and "take 1 (path t') = ''/''" and "cuts pat \<subseteq> labels [] t'"
    and "\<And>Y. closed Y \<Longrightarrow> cuts pat \<subseteq> Y \<Longrightarrow> labels [] t' \<subseteq> Y"
    and "bound [] t' = {(pat, h)}"
proof -
  let ?i = "skip_static pat"
  let ?pre = "take ?i pat"
  let ?n1 = "Radix ?pre [] None :: 'a radix"
  note p = skip_static_prefix [OF sl]
  from res have rec: "add_loop pat h ?i ?i ?n1 = Inr t'"
    by (auto simp: add_def Let_def merge_def empty_radix_def split: sum.splits)
  have k1: "keyed ?n1" by (subst keyed_unfold) simp
  have n1: "nodes [] ?n1 = {(?pre, None)}" by (subst nodes_unfold) simp
  then have l1: "labels [] ?n1 = {?pre}" and b1: "bound [] ?n1 = {}"
    by (simp_all add: labels_def bound_def)
  from add_loop_grown [OF rec k1 _ _ _ p(3), of "[]"] p(1)
  have g: "grown [] ?n1 t' (piece_ends pat ?i) (pat, h)" by simp
  from g show "keyed t'" by (simp add: grown_def)
  from g p(2) show "take 1 (path t') = ''/''" by (simp add: grown_def)
  from g show "cuts pat \<subseteq> labels [] t'" by (simp add: grown_def cuts_def l1)
  from g show "bound [] t' = {(pat, h)}" by (simp add: grown_def b1)
  show "labels [] t' \<subseteq> Y" if "closed Y" "cuts pat \<subseteq> Y" for Y
    using g that by (simp add: grown_def cuts_def l1)
qed

text \<open>
  The tree of the registrations \<open>R\<close>: its labels are the least closed set that contains
  the piece ends of the patterns of \<open>R\<close>, and its bound labels are \<open>R\<close>.
\<close>

definition built :: "(string \<times> 'h) set \<Rightarrow> 'h radix \<Rightarrow> bool" where
  "built R t \<longleftrightarrow>
     (if R = {} then t = empty_radix
      else keyed t \<and> take 1 (path t) = ''/'' \<and>
        (\<Union>r \<in> R. cuts (fst r)) \<subseteq> labels [] t \<and>
        (\<forall>Y. closed Y \<and> (\<Union>r \<in> R. cuts (fst r)) \<subseteq> Y \<longrightarrow> labels [] t \<subseteq> Y) \<and>
        bound [] t = R)"

lemma built_add:
  assumes b: "built R t" and res: "add t pat h = Inr t'" and sl: "take 1 pat = ''/''"
  shows "built (insert (pat, h) R) t'"
proof (cases "R = {}")
  case True
  with b res have "add empty_radix pat h = Inr t'" by (simp add: built_def)
  from add_first [OF this sl] show ?thesis
    unfolding built_def True by simp
next
  case False
  with b have t: "keyed t" "take 1 (path t) = ''/''" "(\<Union>r \<in> R. cuts (fst r)) \<subseteq> labels [] t"
    "\<And>Y. closed Y \<Longrightarrow> (\<Union>r \<in> R. cuts (fst r)) \<subseteq> Y \<Longrightarrow> labels [] t \<subseteq> Y"
    "bound [] t = R"
    unfolding built_def by auto
  from add_grown [OF res t(1,2) sl]
  have g: "keyed t'" "take 1 (path t') = take 1 (path t)" "labels [] t \<subseteq> labels [] t'"
    "cuts pat \<subseteq> labels [] t'"
    "\<And>Y. closed Y \<Longrightarrow> labels [] t \<subseteq> Y \<Longrightarrow> cuts pat \<subseteq> Y \<Longrightarrow> labels [] t' \<subseteq> Y"
    "bound [] t' = insert (pat, h) (bound [] t)"
    unfolding grown_def by auto
  have "labels [] t' \<subseteq> Y"
    if "closed Y" "(\<Union>r \<in> insert (pat, h) R. cuts (fst r)) \<subseteq> Y" for Y
  proof -
    from that(2) have "(\<Union>r \<in> R. cuts (fst r)) \<subseteq> Y" "cuts pat \<subseteq> Y" by auto
    from g(5) [OF that(1) t(4) [OF that(1) this(1)] this(2)] show ?thesis .
  qed
  moreover have "(\<Union>r \<in> insert (pat, h) R. cuts (fst r)) \<subseteq> labels [] t'"
    using t(3) g(3,4) by auto
  ultimately show ?thesis
    using g(1,2,6) t(2,5) unfolding built_def by auto
qed

lemma built_adds:
  "built R t \<Longrightarrow> adds t rs = Inr t' \<Longrightarrow> \<forall>(p, h) \<in> set rs. take 1 p = ''/'' \<Longrightarrow>
   built (R \<union> set rs) t'"
proof (induction rs arbitrary: t R)
  case Nil
  then show ?case by simp
next
  case (Cons r rs)
  obtain pat h where r: "r = (pat, h)" by (cases r)
  from Cons.prems(2) obtain t1 where a: "add t pat h = Inr t1" and rest: "adds t1 rs = Inr t'"
    by (auto simp: r split: sum.splits)
  from Cons.prems(3) have sl: "take 1 pat = ''/''" by (simp add: r)
  from Cons.IH [OF built_add [OF Cons.prems(1) a sl] rest] Cons.prems(3)
  show ?case by (simp add: r)
qed

lemma built_alike:
  assumes "built R t" and "built R t'"
  shows "alike t t'"
proof (cases "R = {}")
  case True
  with assms have "t = Radix [] [] None" "t' = Radix [] [] None"
    by (simp_all add: built_def empty_radix_def)
  then show ?thesis by (auto intro: alike.intros)
next
  case False
  have sub: "labels [] m \<subseteq> labels [] m'" if "built R m" "built R m'" for m m' :: "'a radix"
  proof -
    from that(2) False have "keyed m'" "(\<Union>r \<in> R. cuts (fst r)) \<subseteq> labels [] m'"
      by (simp_all add: built_def)
    with labels_closed [of m' "[]"] that(1) False show ?thesis
      by (simp add: built_def)
  qed
  from assms False have "keyed t" "keyed t'" "bound [] t = bound [] t'"
    by (simp_all add: built_def)
  moreover from sub [OF assms] sub [OF assms(2,1)] have "labels [] t = labels [] t'" by blast
  ultimately show ?thesis
    by (intro nodes_alike [of t t' "[]"] nodes_determined)
qed

subsection \<open>When a registration fails\<close>

text \<open>
  \<open>merge\<close> fails only where it is to bind a label that is bound already; a registration
  whose pattern is well formed fails only when the pattern is registered already.
\<close>

lemma merge_loop_Inl:
  "merge_loop n pth h = Inl e \<Longrightarrow> keyed n \<Longrightarrow> pth \<noteq> [] \<Longrightarrow>
   take 1 pth = take 1 (path n) \<Longrightarrow> \<exists>x. (acc @ pth, x) \<in> bound acc n"
proof (induction n pth h arbitrary: acc rule: merge_loop_induct)
  case (step n pth h)
  let ?i = "merge_index n pth"
  let ?n1 = "merge_node n pth"
  let ?k = "take 1 (drop ?i pth)"
  note res = step.prems(1) and k = step.prems(2) and ne = step.prems(3) and t1 = step.prems(4)
  note f = merge_node_keyed [OF k ne t1]
  have whole: "acc @ path ?n1 @ drop ?i pth = acc @ pth"
    by (simp add: f(2))
  show ?case
  proof (cases "?i < length pth")
    case True
    then have dne: "drop ?i pth \<noteq> []" by simp
    from res True obtain c where Some: "map_of (children ?n1) ?k = Some c"
      and rec: "merge_loop c (drop ?i pth) h = Inl e"
      by (subst (asm) merge_loop_unfold) (auto split: option.splits sum.splits)
    from Some have mem: "(?k, c) \<in> set (children ?n1)" by (rule map_of_SomeD)
    note c = keyed_child [OF f(1) mem]
    from step.IH [OF True Some rec c(3) dne c(1), of "acc @ path ?n1"] whole
    obtain x where "(acc @ pth, x) \<in> bound (acc @ path ?n1) c" by auto
    with nodes_bound_mono [OF nodes_child [OF mem, of acc]] f(7) [of acc]
    show ?thesis by blast
  next
    case False
    with f(2) lcp_le(1) [of pth "path n"] have p1: "path ?n1 = pth"
      by (simp add: merge_index_def)
    from res False obtain x where "handler ?n1 = Some x"
      by (subst (asm) merge_loop_unfold) (auto split: if_splits)
    with nodes_root [of acc ?n1] have "(acc @ pth, x) \<in> bound acc ?n1"
      by (simp add: bound_def handlers_in_def p1)
    with f(7) [of acc] show ?thesis by blast
  qed
qed

lemma insert_radix_Inl:
  assumes res: "insert_radix n pth h = Inl e"
    and n: "keyed n" "path n \<noteq> []" and ne: "pth \<noteq> []"
  shows "\<exists>x. (acc @ path n @ pth, x) \<in> bound acc n"
proof -
  from res obtain c where Some: "map_of (children n) (take 1 pth) = Some c"
    and m: "merge c pth h = Inl e"
    by (auto simp: insert_radix_def split: option.splits sum.splits)
  from Some have mem: "(take 1 pth, c) \<in> set (children n)" by (rule map_of_SomeD)
  note c = keyed_child [OF n(1) mem]
  from m c(2) ne have "merge_loop c pth h = Inl e"
    by (simp add: merge_def)
  from merge_loop_Inl [OF this c(3) ne c(1), of "acc @ path n"]
  obtain x where "(acc @ path n @ pth, x) \<in> bound (acc @ path n) c" by auto
  with nodes_bound_mono [OF nodes_child [OF mem, of acc]] show ?thesis by blast
qed

lemma reaches_focus:
  assumes "reaches acc n w None fs d"
  shows "\<exists>accd. accd @ path d = w \<and> keyed d \<and> path d \<noteq> [] \<and> bound accd d \<subseteq> bound acc n"
proof -
  from assms obtain accd where accd: "accd @ path d = w" "keyed d" "path d \<noteq> []"
    "carries acc n fs accd d" "bound acc (plug fs d) = bound acc n"
    unfolding reaches_def by auto
  note cs = carries_push [OF accd(4) accd(2,3) accd(2,3) refl]
  from nodes_bound_mono [OF cs(4)] accd(5) have "bound accd d \<subseteq> bound acc n" by simp
  with accd(1-3) show ?thesis by blast
qed

text \<open>
  The error \<open>add\<close> finds in the pattern alone, scanning from index \<open>i\<close>: a second
  marker in a segment or a parameter without a name.
\<close>

function pattern_error :: "string \<Rightarrow> nat \<Rightarrow> error option" where
  "pattern_error pat i =
     (if i < length pat then
        (if isWildcard (pat ! i) then
           (case scan_name pat (Suc i) of
              Inl e \<Rightarrow> Some e
            | Inr i2 \<Rightarrow>
                if pat ! i = CHR '':'' \<and> i2 - i = 1 then Some EmptyParamNameError
                else pattern_error pat (Suc i2))
         else pattern_error pat (Suc i))
      else None)"
  by pat_completeness auto
termination
  by (relation "measure (\<lambda>(pat, i). Suc (length pat) - i)")
    (auto dest: scan_name_ge scan_name_ge [OF sym])

declare pattern_error.simps [simp del]

lemma pattern_error_marker:
  assumes "pattern_error pat i = None" and "i < length pat" and "isWildcard (pat ! i)"
  shows "\<exists>i2. scan_name pat (Suc i) = Inr i2 \<and> \<not> (pat ! i = CHR '':'' \<and> i2 - i = 1) \<and>
           pattern_error pat (Suc i2) = None"
  using assms by (subst (asm) pattern_error.simps) (auto split: sum.splits if_splits)

lemma add_loop_Inr:
  "add_loop pat h i j n = Inr n' \<Longrightarrow> pattern_error pat i = None"
proof (induction "Suc (length pat) - i" arbitrary: i j n n' rule: less_induct)
  case less
  note res = less.prems
  show ?case
  proof (cases "i < length pat")
    case False
    then show ?thesis by (subst pattern_error.simps) simp
  next
    case il: True
    show ?thesis
    proof (cases "isWildcard (pat ! i)")
      case False
      from res add_loop_skip [OF il False, of h j n]
      have "add_loop pat h (Suc i) j n = Inr n'" by simp
      from less.hyps [OF _ this] il have "pattern_error pat (Suc i) = None" by simp
      with il False show ?thesis
        by (subst pattern_error.simps) simp
    next
      case w: True
      from res il w obtain fs1 n1 i2 fs2 n2 n3 where
        st: "(if j \<noteq> i then insert_radix n (slice j i pat) None else Inr ([], n)) = Inr (fs1, n1)"
        and sc: "scan_name pat (Suc i) = Inr i2"
        and en: "\<not> (pat ! i = CHR '':'' \<and> i2 - i = 1)"
        and ins: "insert_radix n1 (slice i i2 pat) None = Inr (fs2, n2)"
        and rec: "add_loop pat h (Suc i2) i2 n2 = Inr n3"
        by (subst (asm) add_loop.simps) (simp split: sum.splits prod.splits if_splits)
      from scan_name_ge [OF sc] have "i < i2" by simp
      with less.hyps [OF _ rec] il have "pattern_error pat (Suc i2) = None" by simp
      with il w sc en show ?thesis
        by (subst pattern_error.simps) simp
    qed
  qed
qed


lemma add_loop_Inl:
  "add_loop pat h i j n = Inl e \<Longrightarrow> pattern_error pat i = None \<Longrightarrow> keyed n \<Longrightarrow>
   path n \<noteq> [] \<Longrightarrow> acc @ path n = take j pat \<Longrightarrow> j \<le> i \<Longrightarrow> j \<le> length pat \<Longrightarrow>
   \<exists>x. (pat, x) \<in> bound acc n"
proof (induction "Suc (length pat) - i" arbitrary: i j n acc rule: less_induct)
  case less
  note res = less.prems(1) and ok = less.prems(2) and k = less.prems(3) and nn = less.prems(4)
    and pos = less.prems(5) and ji = less.prems(6) and jl = less.prems(7)
  show ?case
  proof (cases "i < length pat")
    case False
    show ?thesis
    proof (cases "j = length pat")
      case True
      with res False nn obtain x where "handler n = Some x"
        by (subst (asm) add_loop.simps) (auto simp: merge_def split: if_splits)
      with nodes_root [of acc n] pos True show ?thesis
        by (auto simp: bound_def handlers_in_def)
    next
      case nj: False
      let ?pc = "slice j (length pat) pat"
      from res False nj have ins: "insert_radix n ?pc (Some h) = Inl e"
        by (subst (asm) add_loop.simps) (auto split: sum.splits)
      have ne: "?pc \<noteq> []"
        using nj jl by (simp add: slice_def)
      have "acc @ path n @ ?pc = pat"
        using pos take_slice [OF jl, of pat] by (metis append.assoc take_all order_refl)
      with insert_radix_Inl [OF ins k nn ne, of acc] show ?thesis by simp
    qed
  next
    case il: True
    show ?thesis
    proof (cases "isWildcard (pat ! i)")
      case False
      from res add_loop_skip [OF il False, of h j n]
      have r: "add_loop pat h (Suc i) j n = Inl e" by simp
      from ok il False have ok': "pattern_error pat (Suc i) = None"
        by (subst (asm) pattern_error.simps) simp
      from less.hyps [OF _ r ok' k nn pos _ jl] il ji show ?thesis by simp
    next
      case w: True
      from add_loop_static_ok [OF il ji, of n] obtain fs1 n1 where
        st: "(if j \<noteq> i then insert_radix n (slice j i pat) None else Inr ([], n)) = Inr (fs1, n1)"
        by blast
      have r1: "reaches acc n (take i pat) None fs1 n1"
      proof (cases "j = i")
        case True
        with st have "fs1 = []" "n1 = n" by simp_all
        with reaches_here [OF k nn, of None n acc] pos True show ?thesis by simp
      next
        case False
        with st have ins: "insert_radix n (slice j i pat) None = Inr (fs1, n1)" by simp
        have ne: "slice j i pat \<noteq> []"
          using False ji il by (simp add: slice_def)
        have "acc @ path n @ slice j i pat = take i pat"
          using pos take_slice [OF ji, of pat] by (metis append.assoc)
        with insert_radix_reaches [OF ins k nn ne, of acc] show ?thesis by simp
      qed
      from reaches_focus [OF r1] obtain acc1 where n1: "acc1 @ path n1 = take i pat"
        "keyed n1" "path n1 \<noteq> []" "bound acc1 n1 \<subseteq> bound acc n"
        by blast
      from pattern_error_marker [OF ok il w] obtain i2 where
        sc: "scan_name pat (Suc i) = Inr i2"
        and en: "\<not> (pat ! i = CHR '':'' \<and> i2 - i = 1)"
        and ok2: "pattern_error pat (Suc i2) = None"
        by blast
      from scan_name_Inr [OF sc] il have i2: "i2 \<le> length pat" by auto
      from scan_name_ge [OF sc] have ii2: "i < i2" by simp
      have ne2: "slice i i2 pat \<noteq> []" using ii2 il by (simp add: slice_def)
      from insert_radix_None_ok [OF ne2, of n1] obtain fs2 n2 where
        ins: "insert_radix n1 (slice i i2 pat) None = Inr (fs2, n2)"
        by auto
      have "acc1 @ path n1 @ slice i i2 pat = take i2 pat"
        using n1(1) take_slice [of i i2 pat] ii2 by (metis append.assoc less_imp_le)
      with insert_radix_reaches [OF ins n1(2,3) ne2, of acc1]
      have r2: "reaches acc1 n1 (take i2 pat) None fs2 n2" by simp
      from reaches_focus [OF r2] obtain acc2 where n2: "acc2 @ path n2 = take i2 pat"
        "keyed n2" "path n2 \<noteq> []" "bound acc2 n2 \<subseteq> bound acc1 n1"
        by blast
      from res il w st sc en ins have rec: "add_loop pat h (Suc i2) i2 n2 = Inl e"
        by (subst (asm) add_loop.simps) (auto split: sum.splits if_splits)
      have m: "Suc (length pat) - Suc i2 < Suc (length pat) - i"
        using il ii2 by arith
      from less.hyps [OF m rec ok2 n2(2,3,1) _ i2]
      obtain x where "(pat, x) \<in> bound acc2 n2" by auto
      with n2(4) n1(4) show ?thesis by blast
    qed
  qed
qed

lemma add_Inr:
  "add t pat h = Inr t' \<Longrightarrow> pattern_error pat (skip_static pat) = None"
  by (auto simp: add_def Let_def split: sum.splits dest: add_loop_Inr)

lemma add_Inl:
  assumes res: "add t pat h = Inl e" and ok: "pattern_error pat (skip_static pat) = None"
    and b: "built R t" and sl: "take 1 pat = ''/''"
  shows "pat \<in> fst ` R"
proof -
  let ?i = "skip_static pat"
  let ?pre = "take ?i pat"
  note p = skip_static_prefix [OF sl]
  from merge_None_ok [OF p(1), of t] obtain fs n1 where
    m: "merge t ?pre None = Inr (fs, n1)" by auto
  with res have rec: "add_loop pat h ?i ?i n1 = Inl e"
    by (auto simp: add_def Let_def split: sum.splits)
  have "\<exists>acc1. acc1 @ path n1 = ?pre \<and> keyed n1 \<and> path n1 \<noteq> [] \<and> bound acc1 n1 \<subseteq> R"
  proof (cases "R = {}")
    case True
    with b m have n1: "n1 = Radix ?pre [] None"
      by (simp add: built_def merge_def empty_radix_def)
    have "keyed n1" unfolding n1 by (subst keyed_unfold) simp
    moreover have "nodes [] n1 = {(?pre, None)}" unfolding n1 by (subst nodes_unfold) simp
    then have "bound [] n1 = {}" by (simp add: bound_def)
    ultimately show ?thesis using p(1) by (intro exI [of _ "[]"]) (simp add: n1)
  next
    case False
    with b have t: "keyed t" "take 1 (path t) = ''/''" "bound [] t = R"
      by (simp_all add: built_def)
    from t(2) have "path t \<noteq> []" by auto
    with m p(1) have "merge_loop t ?pre None = Inr (fs, n1)"
      by (simp add: merge_def)
    from merge_loop_reaches [OF this t(1) p(1), of "[]"] p(2) t(2)
    have "reaches [] t ?pre None fs n1" by simp
    from reaches_focus [OF this] t(3) show ?thesis by simp
  qed
  then obtain acc1 where n1: "acc1 @ path n1 = ?pre" "keyed n1" "path n1 \<noteq> []"
    "bound acc1 n1 \<subseteq> R"
    by blast
  from add_loop_Inl [OF rec ok n1(2,3,1) _ p(3)] obtain x where "(pat, x) \<in> bound acc1 n1"
    by auto
  with n1(4) show ?thesis by force
qed

lemma adds_patterns:
  "adds t rs = Inr t' \<Longrightarrow> (p, h) \<in> set rs \<Longrightarrow> pattern_error p (skip_static p) = None"
proof (induction rs arbitrary: t)
  case Nil
  then show ?case by simp
next
  case (Cons r rs)
  obtain pat x where r: "r = (pat, x)" by (cases r)
  from Cons.prems(1) obtain t1 where a: "add t pat x = Inr t1" and rest: "adds t1 rs = Inr t'"
    by (auto simp: r split: sum.splits)
  from Cons.prems(2) Cons.IH [OF rest] add_Inr [OF a] show ?case
    by (auto simp: r)
qed

lemma adds_succeed:
  "built R t \<Longrightarrow>
   \<forall>(p, h) \<in> set rs. take 1 p = ''/'' \<and> pattern_error p (skip_static p) = None \<Longrightarrow>
   distinct (map fst rs) \<Longrightarrow> fst ` R \<inter> fst ` set rs = {} \<Longrightarrow> \<exists>t'. adds t rs = Inr t'"
proof (induction rs arbitrary: t R)
  case Nil
  then show ?case by simp
next
  case (Cons r rs)
  obtain pat h where r: "r = (pat, h)" by (cases r)
  from Cons.prems(2) have sl: "take 1 pat = ''/''"
    and ok: "pattern_error pat (skip_static pat) = None"
    by (simp_all add: r)
  obtain t1 where a: "add t pat h = Inr t1"
  proof (cases "add t pat h")
    case (Inl e)
    from add_Inl [OF Inl ok Cons.prems(1) sl] Cons.prems(4) show ?thesis
      by (auto simp: r)
  next
    case (Inr t1)
    then show ?thesis by (rule that)
  qed
  have "fst ` insert (pat, h) R \<inter> fst ` set rs = {}"
    using Cons.prems(3,4) by (auto simp: r)
  from Cons.IH [OF built_add [OF Cons.prems(1) a sl] _ _ this] Cons.prems(2,3)
  obtain t' where "adds t1 rs = Inr t'" by auto
  with a show ?case by (simp add: r)
qed

text \<open>
  Claim C7. Registration is order-independent. Let a sequence of \<open>add\<close> calls on a new
  tree succeed, all its patterns starting with \<open>/\<close>. Then every sequence of calls that
  registers the same patterns with the same handlers, each pattern once, succeeds as
  well, and \<open>find\<close> returns the same handler and the same bindings on both trees, for
  every path. Every permutation of calls with distinct patterns is such a sequence.
\<close>

theorem registration_order_irrelevant:
  assumes "adds empty_radix rs = Inr t"
    and "set rs' = set rs" and "distinct (map fst rs')"
    and "\<forall>(p, h) \<in> set rs. take 1 p = ''/''"
  shows "\<exists>t'. adds empty_radix rs' = Inr t' \<and> (\<forall>q. find_radix t' q = find_radix t q)"
proof -
  have e: "built {} (empty_radix :: 'a radix)" by (simp add: built_def)
  have "\<forall>(p, h) \<in> set rs'. take 1 p = ''/'' \<and> pattern_error p (skip_static p) = None"
    using assms(2,4) adds_patterns [OF assms(1)] by auto
  from adds_succeed [OF e this assms(3)] obtain t' where t': "adds empty_radix rs' = Inr t'"
    by auto
  from built_adds [OF e assms(1,4)] have "built (set rs) t" by simp
  moreover from built_adds [OF e t'] assms(2,4) have "built (set rs) t'" by simp
  ultimately have "alike t' t" by (rule built_alike [rotated])
  then have "find_radix t' q = find_radix t q" for q by (rule find_radix_alike)
  with t' show ?thesis by blast
qed

theorem registration_order_irrelevant_witness:
  "adds empty_radix [(''/users/:id'', ''h1''), (''/users/new'', ''h2''), (''/files/*rest'', ''h3'')] =
     Inr (Radix ''/''
       [(''u'', Radix ''users/'' [('':'', Radix '':id'' [] (Some ''h1'')),
                                 (''n'', Radix ''new'' [] (Some ''h2''))] None),
        (''f'', Radix ''files/'' [(''*'', Radix ''*rest'' [] (Some ''h3''))] None)] None) \<and>
   adds empty_radix [(''/files/*rest'', ''h3''), (''/users/new'', ''h2''), (''/users/:id'', ''h1'')] =
     Inr (Radix ''/''
       [(''f'', Radix ''files/'' [(''*'', Radix ''*rest'' [] (Some ''h3''))] None),
        (''u'', Radix ''users/'' [(''n'', Radix ''new'' [] (Some ''h2'')),
                                 ('':'', Radix '':id'' [] (Some ''h1''))] None)] None) \<and>
   find_radix (Radix ''/''
       [(''f'', Radix ''files/'' [(''*'', Radix ''*rest'' [] (Some ''h3''))] None),
        (''u'', Radix ''users/'' [(''n'', Radix ''new'' [] (Some ''h2'')),
                                 ('':'', Radix '':id'' [] (Some ''h1''))] None)] None) ''/users/42'' =
   find_radix (Radix ''/''
       [(''u'', Radix ''users/'' [('':'', Radix '':id'' [] (Some ''h1'')),
                                 (''n'', Radix ''new'' [] (Some ''h2''))] None),
        (''f'', Radix ''files/'' [(''*'', Radix ''*rest'' [] (Some ''h3''))] None)] None) ''/users/42''"
proof -
  let ?rs = "[(''/users/:id'', ''h1''), (''/users/new'', ''h2''), (''/files/*rest'', ''h3'')]"
  let ?rs' = "[(''/files/*rest'', ''h3''), (''/users/new'', ''h2''), (''/users/:id'', ''h1'')]"
  let ?t = "Radix ''/''
       [(''u'', Radix ''users/'' [('':'', Radix '':id'' [] (Some ''h1'')),
                                 (''n'', Radix ''new'' [] (Some ''h2''))] None),
        (''f'', Radix ''files/'' [(''*'', Radix ''*rest'' [] (Some ''h3''))] None)] None"
  let ?t' = "Radix ''/''
       [(''f'', Radix ''files/'' [(''*'', Radix ''*rest'' [] (Some ''h3''))] None),
        (''u'', Radix ''users/'' [(''n'', Radix ''new'' [] (Some ''h2'')),
                                 ('':'', Radix '':id'' [] (Some ''h1''))] None)] None"
  have a: "adds empty_radix ?rs = Inr ?t"
    by (simp add: add_eval)
  have b: "adds empty_radix ?rs' = Inr ?t'"
    by (simp add: add_eval)
  have "\<exists>t'. adds empty_radix ?rs' = Inr t' \<and> (\<forall>q. find_radix t' q = find_radix ?t q)"
    by (rule registration_order_irrelevant [OF a]) auto
  then have "find_radix ?t' ''/users/42'' = find_radix ?t ''/users/42''"
    unfolding b by blast
  with a b show ?thesis by simp
qed


section \<open>Duplicate registration\<close>

text \<open>
  A node of a tree whose accumulated label goes on from the label an operation reaches
  is found again below the node the operation returns. So the last operation of a
  registration reaches the node that bears the pattern, if there is one, and fails at
  its handler.
\<close>

lemma descend:
  assumes k: "keyed n" and s: "(s, a) \<in> nodes acc n" and p: "prefix (acc @ path n @ q) s"
    and q: "q \<noteq> []"
  shows "\<exists>c. map_of (children n) (take 1 q) = Some c \<and> (s, a) \<in> nodes (acc @ path n) c"
proof -
  from p obtain r where r: "s = (acc @ path n) @ q @ r" by (auto simp: prefix_def)
  with q have ne: "s \<noteq> acc @ path n" by simp
  from r q have key: "key_at (acc @ path n) s = take 1 q"
    by (cases q) (auto simp: key_at_def)
  from s ne obtain k' c' where c': "(k', c') \<in> set (children n)" "(s, a) \<in> nodes (acc @ path n) c'"
    by (subst (asm) nodes_unfold) auto
  from child_key(1) [OF k c'] key have "k' = take 1 q" by simp
  with c'(1) keyed_distinct [OF k] have "map_of (children n) (take 1 q) = Some c'"
    by (simp add: map_of_is_SomeI)
  with c'(2) show ?thesis by blast
qed

lemma merge_node_nodes: "nodes acc n \<subseteq> nodes acc (merge_node n pth)"
  by (auto simp: merge_node_def nodes_split)

lemma merge_loop_keeps:
  "merge_loop n pth None = Inr (fs, d) \<Longrightarrow> keyed n \<Longrightarrow> pth \<noteq> [] \<Longrightarrow>
   take 1 pth = take 1 (path n) \<Longrightarrow> (s, a) \<in> nodes acc n \<Longrightarrow> prefix (acc @ pth) s \<Longrightarrow>
   \<exists>accd. accd @ path d = acc @ pth \<and> (s, a) \<in> nodes accd d"
proof (induction n pth "None :: 'a option" arbitrary: fs d acc rule: merge_loop_induct)
  case (step n pth)
  let ?i = "merge_index n pth"
  let ?n1 = "merge_node n pth"
  let ?k = "take 1 (drop ?i pth)"
  note res = step.prems(1) and k = step.prems(2) and ne = step.prems(3) and t1 = step.prems(4)
    and s = step.prems(5) and p = step.prems(6)
  note f = merge_node_keyed [OF k ne t1]
  have whole: "acc @ path ?n1 @ drop ?i pth = acc @ pth"
    by (simp add: f(2))
  from s merge_node_nodes have s1: "(s, a) \<in> nodes acc ?n1" by blast
  show ?case
  proof (cases "?i < length pth")
    case True
    then have dne: "drop ?i pth \<noteq> []" by simp
    from descend [OF f(1) s1 _ dne] p whole
    obtain c where Some: "map_of (children ?n1) ?k = Some c"
      and sc: "(s, a) \<in> nodes (acc @ path ?n1) c"
      by auto
    with res True obtain fs' where rec: "merge_loop c (drop ?i pth) None = Inr (fs', d)"
      by (subst (asm) merge_loop_unfold) (auto split: sum.splits)
    from Some have mem: "(?k, c) \<in> set (children ?n1)" by (rule map_of_SomeD)
    note c = keyed_child [OF f(1) mem]
    from step.hyps [OF True Some rec c(3) dne c(1) sc] p whole
    show ?thesis by simp
  next
    case False
    with f(2) lcp_le(1) [of pth "path n"] have p1: "path ?n1 = pth"
      by (simp add: merge_index_def)
    from res False have "d = ?n1"
      by (subst (asm) merge_loop_unfold) simp
    with s1 p1 show ?thesis by (intro exI [of _ acc]) simp
  qed
qed

lemma insert_radix_keeps:
  assumes res: "insert_radix n pth None = Inr (fs, d)"
    and n: "keyed n" "path n \<noteq> []" and ne: "pth \<noteq> []"
    and s: "(s, a) \<in> nodes acc n" and p: "prefix (acc @ path n @ pth) s"
  shows "\<exists>accd. accd @ path d = acc @ path n @ pth \<and> (s, a) \<in> nodes accd d"
proof -
  from descend [OF n(1) s p ne]
  obtain c where Some: "map_of (children n) (take 1 pth) = Some c"
    and sc: "(s, a) \<in> nodes (acc @ path n) c"
    by auto
  with res obtain fs' where m: "merge c pth None = Inr (fs', d)"
    by (auto simp: insert_radix_def split: sum.splits)
  from Some have mem: "(take 1 pth, c) \<in> set (children n)" by (rule map_of_SomeD)
  note c = keyed_child [OF n(1) mem]
  from m c(2) ne have "merge_loop c pth None = Inr (fs', d)"
    by (simp add: merge_def)
  from merge_loop_keeps [OF this c(3) ne c(1) sc] p show ?thesis by simp
qed

lemma merge_loop_fresh:
  "merge_loop n pth (Some h) = Inr (fs, d) \<Longrightarrow> keyed n \<Longrightarrow> pth \<noteq> [] \<Longrightarrow>
   take 1 pth = take 1 (path n) \<Longrightarrow> (acc @ pth, Some x) \<notin> nodes acc n"
proof (induction n pth "Some h :: 'a option" arbitrary: fs d acc rule: merge_loop_induct)
  case (step n pth)
  let ?i = "merge_index n pth"
  let ?n1 = "merge_node n pth"
  let ?k = "take 1 (drop ?i pth)"
  note res = step.prems(1) and k = step.prems(2) and ne = step.prems(3) and t1 = step.prems(4)
  note f = merge_node_keyed [OF k ne t1]
  have whole: "acc @ path ?n1 @ drop ?i pth = acc @ pth"
    by (simp add: f(2))
  show ?case
  proof
    assume "(acc @ pth, Some x) \<in> nodes acc n"
    with merge_node_nodes have s1: "(acc @ pth, Some x) \<in> nodes acc ?n1" by blast
    show False
    proof (cases "?i < length pth")
      case True
      then have dne: "drop ?i pth \<noteq> []" by simp
      from descend [OF f(1) s1 _ dne] whole
      obtain c where Some: "map_of (children ?n1) ?k = Some c"
        and sc: "(acc @ pth, Some x) \<in> nodes (acc @ path ?n1) c"
        by auto
      with res True obtain fs' where rec: "merge_loop c (drop ?i pth) (Some h) = Inr (fs', d)"
        by (subst (asm) merge_loop_unfold) (auto split: sum.splits)
      from Some have mem: "(?k, c) \<in> set (children ?n1)" by (rule map_of_SomeD)
      note c = keyed_child [OF f(1) mem]
      from step.hyps [OF True Some rec c(3) dne c(1), of "acc @ path ?n1"] sc whole
      show False by simp
    next
      case False
      with f(2) lcp_le(1) [of pth "path n"] have p1: "path ?n1 = pth"
        by (simp add: merge_index_def)
      from res False have "handler ?n1 = None"
        by (subst (asm) merge_loop_unfold) (auto split: if_splits)
      with nodes_root [of acc ?n1] p1 have "(acc @ pth, None) \<in> nodes acc ?n1" by simp
      from nodes_functional [OF f(1) this s1] show False by simp
    qed
  qed
qed

lemma insert_radix_fresh:
  assumes res: "insert_radix n pth (Some h) = Inr (fs, d)"
    and n: "keyed n" "path n \<noteq> []" and ne: "pth \<noteq> []"
  shows "(acc @ path n @ pth, Some x) \<notin> nodes acc n"
proof
  assume s: "(acc @ path n @ pth, Some x) \<in> nodes acc n"
  from descend [OF n(1) s _ ne]
  obtain c where Some: "map_of (children n) (take 1 pth) = Some c"
    and sc: "(acc @ path n @ pth, Some x) \<in> nodes (acc @ path n) c"
    by auto
  with res obtain fs' where m: "merge c pth (Some h) = Inr (fs', d)"
    by (auto simp: insert_radix_def split: sum.splits)
  from Some have mem: "(take 1 pth, c) \<in> set (children n)" by (rule map_of_SomeD)
  note c = keyed_child [OF n(1) mem]
  from m c(2) ne have "merge_loop c pth (Some h) = Inr (fs', d)"
    by (simp add: merge_def)
  from merge_loop_fresh [OF this c(3) ne c(1), of "acc @ path n" x] sc show False by simp
qed


lemma static_keeps:
  assumes st: "(if j \<noteq> i then insert_radix n (slice j i pat) None else Inr ([], n)) = Inr (fs1, n1)"
    and n: "keyed n" "path n \<noteq> []" and pos: "acc @ path n = take j pat"
    and ji: "j \<le> i" and il: "i < length pat"
    and s: "(pat, a) \<in> nodes acc n"
  shows "\<exists>acc1. acc1 @ path n1 = take i pat \<and> keyed n1 \<and> path n1 \<noteq> [] \<and>
           (pat, a) \<in> nodes acc1 n1"
proof (cases "j = i")
  case True
  with st have "n1 = n" by simp
  with n pos True s show ?thesis by blast
next
  case False
  with st have ins: "insert_radix n (slice j i pat) None = Inr (fs1, n1)" by simp
  have ne: "slice j i pat \<noteq> []"
    using False ji il by (simp add: slice_def)
  have whole: "acc @ path n @ slice j i pat = take i pat"
    using pos take_slice [OF ji, of pat] by (metis append.assoc)
  from insert_radix_reaches [OF ins n ne, of acc] have "reaches acc n (take i pat) None fs1 n1"
    by (simp add: whole)
  from reaches_focus [OF this] have k1: "keyed n1" "path n1 \<noteq> []" by auto
  have "prefix (acc @ path n @ slice j i pat) pat"
    unfolding whole by (rule take_is_prefix)
  from insert_radix_keeps [OF ins n ne s this] k1 show ?thesis
    by (auto simp: whole)
qed

lemma add_loop_fresh:
  "add_loop pat h i j n = Inr n' \<Longrightarrow> keyed n \<Longrightarrow> path n \<noteq> [] \<Longrightarrow>
   acc @ path n = take j pat \<Longrightarrow> j \<le> i \<Longrightarrow> j \<le> length pat \<Longrightarrow>
   (pat, Some x) \<notin> nodes acc n"
proof (induction "Suc (length pat) - i" arbitrary: i j n n' acc rule: less_induct)
  case less
  note res = less.prems(1) and k = less.prems(2) and nn = less.prems(3)
    and pos = less.prems(4) and ji = less.prems(5) and jl = less.prems(6)
  show ?case
  proof (cases "i < length pat")
    case False
    show ?thesis
    proof (cases "j = length pat")
      case True
      with res False nn have "handler n = None"
        by (subst (asm) add_loop.simps) (simp add: merge_def split: if_splits)
      with nodes_root [of acc n] pos True have "(pat, None) \<in> nodes acc n" by simp
      from nodes_functional [OF k this] show ?thesis by auto
    next
      case nj: False
      let ?pc = "slice j (length pat) pat"
      from res False nj obtain fs d where ins: "insert_radix n ?pc (Some h) = Inr (fs, d)"
        by (subst (asm) add_loop.simps) (auto split: sum.splits)
      have ne: "?pc \<noteq> []"
        using nj jl by (simp add: slice_def)
      have "acc @ path n @ ?pc = pat"
        using pos take_slice [OF jl, of pat] by (metis append.assoc take_all order_refl)
      with insert_radix_fresh [OF ins k nn ne, of acc x] show ?thesis by simp
    qed
  next
    case il: True
    show ?thesis
    proof (cases "isWildcard (pat ! i)")
      case False
      from res add_loop_skip [OF il False, of h j n]
      have r: "add_loop pat h (Suc i) j n = Inr n'" by simp
      from less.hyps [OF _ r k nn pos _ jl] il ji show ?thesis by simp
    next
      case w: True
      show ?thesis
      proof
        assume s: "(pat, Some x) \<in> nodes acc n"
        from add_loop_static_ok [OF il ji, of n] obtain fs1 n1 where
          st: "(if j \<noteq> i then insert_radix n (slice j i pat) None else Inr ([], n)) =
            Inr (fs1, n1)"
          by blast
        from static_keeps [OF st k nn pos ji il s] obtain acc1 where
          n1: "acc1 @ path n1 = take i pat" "keyed n1" "path n1 \<noteq> []"
            "(pat, Some x) \<in> nodes acc1 n1"
          by blast
        from add_loop_marker_result [OF res il w st] obtain i2 fs2 n2 n3 where
          sc: "scan_name pat (Suc i) = Inr i2"
          and ins: "insert_radix n1 (slice i i2 pat) None = Inr (fs2, n2)"
          and rec: "add_loop pat h (Suc i2) i2 n2 = Inr n3"
          by blast
        from scan_name_Inr [OF sc] il have i2: "i2 \<le> length pat" by auto
        from scan_name_ge [OF sc] have ii2: "i < i2" by simp
        have ne2: "slice i i2 pat \<noteq> []" using ii2 il by (simp add: slice_def)
        have whole: "acc1 @ path n1 @ slice i i2 pat = take i2 pat"
          using n1(1) take_slice [of i i2 pat] ii2 by (metis append.assoc less_imp_le)
        from insert_radix_reaches [OF ins n1(2,3) ne2, of acc1]
        have "reaches acc1 n1 (take i2 pat) None fs2 n2" by (simp add: whole)
        from reaches_focus [OF this] have k2: "keyed n2" "path n2 \<noteq> []" by auto
        have "prefix (acc1 @ path n1 @ slice i i2 pat) pat"
          unfolding whole by (rule take_is_prefix)
        from insert_radix_keeps [OF ins n1(2,3) ne2 n1(4) this] obtain acc2 where
          n2: "acc2 @ path n2 = take i2 pat" "(pat, Some x) \<in> nodes acc2 n2"
          by (auto simp: whole)
        have m: "Suc (length pat) - Suc i2 < Suc (length pat) - i"
          using il ii2 by arith
        from less.hyps [OF m rec k2 n2(1) _ i2] n2(2) show False by simp
      qed
    qed
  qed
qed

lemma add_fresh:
  assumes res: "add t pat h = Inr t'" and b: "built R t" and sl: "take 1 pat = ''/''"
  shows "pat \<notin> fst ` R"
proof
  assume "pat \<in> fst ` R"
  then obtain x where x: "(pat, x) \<in> R" by auto
  then have R: "R \<noteq> {}" by auto
  with b have t: "keyed t" "take 1 (path t) = ''/''" "bound [] t = R"
    by (simp_all add: built_def)
  from x t(3) have s: "(pat, Some x) \<in> nodes [] t"
    by (auto simp: bound_def handlers_in_def)
  let ?i = "skip_static pat"
  let ?pre = "take ?i pat"
  note p = skip_static_prefix [OF sl]
  from res obtain fs n1 n2 where m: "merge t ?pre None = Inr (fs, n1)"
    and rec: "add_loop pat h ?i ?i n1 = Inr n2"
    by (auto simp: add_def Let_def split: sum.splits)
  from t(2) have "path t \<noteq> []" by auto
  with m p(1) have ml: "merge_loop t ?pre None = Inr (fs, n1)"
    by (simp add: merge_def)
  from merge_loop_reaches [OF ml t(1) p(1), of "[]"] p(2) t(2)
  have "reaches [] t ?pre None fs n1" by simp
  from reaches_focus [OF this] have k1: "keyed n1" "path n1 \<noteq> []" by auto
  have "prefix ([] @ ?pre) pat" by (simp add: take_is_prefix)
  from merge_loop_keeps [OF ml t(1) p(1) _ s this] p(2) t(2)
  obtain acc1 where n1: "acc1 @ path n1 = ?pre" "(pat, Some x) \<in> nodes acc1 n1"
    by auto
  from add_loop_fresh [OF rec k1 n1(1) _ p(3), of x] n1(2) show False by simp
qed

lemma merge_loop_error: "merge_loop n pth h = Inl e \<Longrightarrow> e = DuplicateRouteError"
proof (induction n pth h rule: merge_loop_induct)
  case (step n pth h)
  show ?case
  proof (cases "merge_index n pth < length pth")
    case True
    with step.prems obtain c where
      "map_of (children (merge_node n pth)) (take 1 (drop (merge_index n pth) pth)) = Some c"
      "merge_loop c (drop (merge_index n pth) pth) h = Inl e"
      by (subst (asm) merge_loop_unfold) (auto split: option.splits sum.splits)
    from step.IH [OF True this] show ?thesis .
  next
    case False
    with step.prems show ?thesis
      by (subst (asm) merge_loop_unfold) (auto split: if_splits)
  qed
qed

lemma merge_error: "merge n pth h = Inl e \<Longrightarrow> e = DuplicateRouteError"
  by (auto simp: merge_def split: if_splits dest: merge_loop_error)

lemma insert_radix_error: "insert_radix n pth h = Inl e \<Longrightarrow> e = DuplicateRouteError"
  by (auto simp: insert_radix_def split: option.splits sum.splits dest: merge_error)

lemma add_loop_error:
  "add_loop pat h i j n = Inl e \<Longrightarrow> pattern_error pat i = None \<Longrightarrow> j \<le> i \<Longrightarrow>
   e = DuplicateRouteError"
proof (induction "Suc (length pat) - i" arbitrary: i j n rule: less_induct)
  case less
  note res = less.prems(1) and ok = less.prems(2) and ji = less.prems(3)
  show ?case
  proof (cases "i < length pat")
    case False
    with res show ?thesis
      by (subst (asm) add_loop.simps)
        (auto split: if_splits sum.splits dest: merge_error insert_radix_error)
  next
    case il: True
    show ?thesis
    proof (cases "isWildcard (pat ! i)")
      case False
      from res add_loop_skip [OF il False, of h j n]
      have r: "add_loop pat h (Suc i) j n = Inl e" by simp
      from ok il False have ok': "pattern_error pat (Suc i) = None"
        by (subst (asm) pattern_error.simps) simp
      from less.hyps [OF _ r ok'] il ji show ?thesis by simp
    next
      case w: True
      from add_loop_static_ok [OF il ji, of n] obtain fs1 n1 where
        st: "(if j \<noteq> i then insert_radix n (slice j i pat) None else Inr ([], n)) = Inr (fs1, n1)"
        by blast
      from pattern_error_marker [OF ok il w] obtain i2 where
        sc: "scan_name pat (Suc i) = Inr i2"
        and en: "\<not> (pat ! i = CHR '':'' \<and> i2 - i = 1)"
        and ok2: "pattern_error pat (Suc i2) = None"
        by blast
      from scan_name_ge [OF sc] have ii2: "i < i2" by simp
      have ne2: "slice i i2 pat \<noteq> []" using ii2 il by (simp add: slice_def)
      from insert_radix_None_ok [OF ne2, of n1] obtain fs2 n2 where
        ins: "insert_radix n1 (slice i i2 pat) None = Inr (fs2, n2)"
        by auto
      from res il w st sc en ins have rec: "add_loop pat h (Suc i2) i2 n2 = Inl e"
        by (subst (asm) add_loop.simps) (auto split: sum.splits if_splits)
      have m: "Suc (length pat) - Suc i2 < Suc (length pat) - i"
        using il ii2 by arith
      from less.hyps [OF m rec ok2] show ?thesis by simp
    qed
  qed
qed

lemma add_error_duplicate:
  assumes res: "add t pat h = Inl e" and ok: "pattern_error pat (skip_static pat) = None"
    and sl: "take 1 pat = ''/''"
  shows "e = DuplicateRouteError"
proof -
  note p = skip_static_prefix [OF sl]
  from merge_None_ok [OF p(1), of t] obtain fs n1 where
    "merge t (take (skip_static pat) pat) None = Inr (fs, n1)" by auto
  with res have "add_loop pat h (skip_static pat) (skip_static pat) n1 = Inl e"
    by (auto simp: add_def Let_def split: sum.splits)
  from add_loop_error [OF this ok] show ?thesis by simp
qed

text \<open>
  The tree \<open>Router.add\<close> works on for a method, and the patterns with their handlers
  among the routes \<open>vs\<close> of a method.
\<close>

definition tree_of :: "'h router \<Rightarrow> string \<Rightarrow> 'h radix" where
  "tree_of r m = (case radixGroup r m of None \<Rightarrow> empty_radix | Some t \<Rightarrow> t)"

definition registered :: "'h route list \<Rightarrow> string \<Rightarrow> (string \<times> 'h) set" where
  "registered vs m = {(route_path v, callback v) | v. v \<in> set vs \<and> route_method v = m}"

lemma router_add_tree:
  "router_add r v =
     (case add (tree_of r (route_method v)) (route_path v) (callback v) of
        Inl e \<Rightarrow> Inl e
      | Inr t \<Rightarrow> Inr (r\<lparr>radixGroup := (radixGroup r)(route_method v \<mapsto> t),
                       routes := routes r @ [v]\<rparr>))"
  by (simp add: router_add_def tree_of_def Let_def)

lemma router_add_built:
  assumes b: "\<forall>m. built (registered vs m) (tree_of r m)"
    and res: "router_add r v = Inr r'" and sl: "take 1 (route_path v) = ''/''"
  shows "\<forall>m. built (registered (vs @ [v]) m) (tree_of r' m)"
    and "pattern_error (route_path v) (skip_static (route_path v)) = None"
proof -
  from res obtain t where a: "add (tree_of r (route_method v)) (route_path v) (callback v) = Inr t"
    and r': "r' = r\<lparr>radixGroup := (radixGroup r)(route_method v \<mapsto> t), routes := routes r @ [v]\<rparr>"
    by (auto simp: router_add_tree split: sum.splits)
  from add_Inr [OF a] show "pattern_error (route_path v) (skip_static (route_path v)) = None" .
  show "\<forall>m. built (registered (vs @ [v]) m) (tree_of r' m)"
  proof
    fix m
    show "built (registered (vs @ [v]) m) (tree_of r' m)"
    proof (cases "m = route_method v")
      case True
      have "registered (vs @ [v]) m = insert (route_path v, callback v) (registered vs m)"
        unfolding registered_def True by auto
      moreover have "tree_of r' m = t" by (simp add: r' tree_of_def True)
      ultimately show ?thesis
        using built_add [OF b [rule_format, of "route_method v"] a sl] True by simp
    next
      case False
      then have "registered (vs @ [v]) m = registered vs m"
        unfolding registered_def by auto
      moreover from False have "tree_of r' m = tree_of r m" by (simp add: r' tree_of_def)
      ultimately show ?thesis using b by simp
    qed
  qed
qed

lemma router_adds_built:
  "router_adds r vs = Inr r' \<Longrightarrow> \<forall>m. built (registered vs0 m) (tree_of r m) \<Longrightarrow>
   \<forall>v \<in> set vs. take 1 (route_path v) = ''/'' \<Longrightarrow>
   (\<forall>m. built (registered (vs0 @ vs) m) (tree_of r' m)) \<and>
   (\<forall>v \<in> set vs. pattern_error (route_path v) (skip_static (route_path v)) = None)"
proof (induction vs arbitrary: r vs0)
  case Nil
  then show ?case by simp
next
  case (Cons v vs)
  from Cons.prems(1) obtain r1 where a: "router_add r v = Inr r1"
    and rest: "router_adds r1 vs = Inr r'"
    by (auto split: sum.splits)
  from Cons.prems(3) have sl: "take 1 (route_path v) = ''/''" by simp
  note s = router_add_built [OF Cons.prems(2) a sl]
  from Cons.IH [OF rest s(1)] Cons.prems(3) s(2) show ?case by simp
qed

text \<open>
  Claim C4. Let a sequence of \<open>Router.add\<close> calls on a new router succeed, the patterns
  starting with \<open>/\<close> and the methods not naming a member of \<open>Object.prototype\<close>, and
  let \<open>v1\<close> be one of the routes registered. Then a further \<open>add\<close> of a route with the
  pattern and the method of \<open>v1\<close> fails with the duplicate-route error, whatever its
  handler; and a further \<open>add\<close> of a route with the pattern of \<open>v1\<close> under a method for
  which this pattern is not registered succeeds: each method has a tree of its own.
\<close>

theorem duplicate_pattern_rejected:
  assumes "router_adds empty_router vs = Inr r"
    and "\<forall>v \<in> set (v2 # vs). take 1 (route_path v) = ''/'' \<and> \<not> proto_member (route_method v)"
    and "v1 \<in> set vs" and "route_path v2 = route_path v1"
  shows "(route_method v2 = route_method v1 \<longrightarrow> router_add r v2 = Inl DuplicateRouteError) \<and>
     ((\<forall>v \<in> set vs. route_method v = route_method v2 \<longrightarrow> route_path v \<noteq> route_path v2) \<longrightarrow>
        (\<exists>r'. router_add r v2 = Inr r'))"
proof -
  let ?m = "route_method v2"
  let ?p = "route_path v2"
  have e: "\<forall>m. built (registered [] m) (tree_of (empty_router :: 'a router) m)"
    by (simp add: registered_def tree_of_def empty_router_def built_def)
  from router_adds_built [OF assms(1) e] assms(2)
  have b: "built (registered vs m) (tree_of r m)"
    and oks: "\<forall>v \<in> set vs. pattern_error (route_path v) (skip_static (route_path v)) = None"
    for m by simp_all
  from oks assms(3,4) have ok: "pattern_error ?p (skip_static ?p) = None" by simp
  from assms(2) have sl: "take 1 ?p = ''/''" by simp
  have dup: "router_add r v2 = Inl DuplicateRouteError" if same: "?m = route_method v1"
  proof (cases "add (tree_of r ?m) ?p (callback v2)")
    case (Inl e)
    from add_error_duplicate [OF Inl ok sl] Inl show ?thesis
      by (simp add: router_add_tree)
  next
    case (Inr t)
    from add_fresh [OF Inr b sl] have "?p \<notin> fst ` registered vs ?m" .
    moreover from assms(3,4) same have "(?p, callback v1) \<in> registered vs ?m"
      unfolding registered_def by auto
    ultimately show ?thesis by force
  qed
  have ok2: "\<exists>r'. router_add r v2 = Inr r'"
    if new: "\<forall>v \<in> set vs. route_method v = ?m \<longrightarrow> route_path v \<noteq> ?p"
  proof (cases "add (tree_of r ?m) ?p (callback v2)")
    case (Inl e)
    from add_Inl [OF Inl ok b sl] have "?p \<in> fst ` registered vs ?m" .
    with new show ?thesis unfolding registered_def by auto
  next
    case (Inr t)
    then show ?thesis by (simp add: router_add_tree)
  qed
  from dup ok2 show ?thesis by blast
qed

text \<open>
  The router after \<open>add("GET", "/a/b", h1)\<close> and \<open>add("GET", "/a/:id/edit", h3)\<close>.
\<close>

definition edit_routes :: "string router" where
  "edit_routes =
     \<lparr>radixGroup =
        [''GET'' \<mapsto> Radix ''/a/''
           [(''b'', Radix ''b'' [] (Some ''h1'')),
            ('':'', Radix '':id'' [(''/'', Radix ''/edit'' [] (Some ''h3''))] None)] None],
      routes = [mk_route ''GET'' ''/a/b'' ''h1'', mk_route ''GET'' ''/a/:id/edit'' ''h3'']\<rparr>"

lemma edit_routes_built:
  "router_adds empty_router
     [mk_route ''GET'' ''/a/b'' ''h1'', mk_route ''GET'' ''/a/:id/edit'' ''h3''] =
   Inr edit_routes"
proof -
  have a1: "add empty_radix ''/a/b'' ''h1'' = Inr (Radix ''/a/b'' [] (Some ''h1''))"
    by (simp add: add_eval)
  have a2: "add (Radix ''/a/b'' [] (Some ''h1'')) ''/a/:id/edit'' ''h3'' =
      Inr (Radix ''/a/''
        [(''b'', Radix ''b'' [] (Some ''h1'')),
         ('':'', Radix '':id'' [(''/'', Radix ''/edit'' [] (Some ''h3''))] None)] None)"
    by (simp add: add_eval)
  show ?thesis
    by (simp add: router_eval a1 a2 edit_routes_def)
qed

theorem duplicate_pattern_rejected_witness:
  "router_adds empty_router
     [mk_route ''GET'' ''/a/b'' ''h1'', mk_route ''GET'' ''/a/:id/edit'' ''h3''] =
     Inr edit_routes \<and>
   router_add edit_routes (mk_route ''GET'' ''/a/b'' ''h2'') = Inl DuplicateRouteError \<and>
   router_add edit_routes (mk_route ''GET'' ''/a/:id/edit'' ''h2'') = Inl DuplicateRouteError \<and>
   (\<exists>r'. router_add edit_routes (mk_route ''POST'' ''/a/b'' ''h2'') = Inr r')"
proof -
  let ?v1 = "mk_route ''GET'' ''/a/b'' ''h1''"
  let ?v3 = "mk_route ''GET'' ''/a/:id/edit'' ''h3''"
  note b = edit_routes_built
  have 1: "(route_method (mk_route ''GET'' ''/a/b'' ''h2'') = route_method ?v1 \<longrightarrow>
        router_add edit_routes (mk_route ''GET'' ''/a/b'' ''h2'') = Inl DuplicateRouteError) \<and>
      ((\<forall>v \<in> set [?v1, ?v3]. route_method v = route_method (mk_route ''GET'' ''/a/b'' ''h2'') \<longrightarrow>
          route_path v \<noteq> route_path (mk_route ''GET'' ''/a/b'' ''h2'')) \<longrightarrow>
        (\<exists>r'. router_add edit_routes (mk_route ''GET'' ''/a/b'' ''h2'') = Inr r'))"
    by (rule duplicate_pattern_rejected [OF b]) (simp_all add: mk_route_def proto_member_def)
  have 2: "(route_method (mk_route ''GET'' ''/a/:id/edit'' ''h2'') = route_method ?v3 \<longrightarrow>
        router_add edit_routes (mk_route ''GET'' ''/a/:id/edit'' ''h2'') =
          Inl DuplicateRouteError) \<and>
      ((\<forall>v \<in> set [?v1, ?v3].
          route_method v = route_method (mk_route ''GET'' ''/a/:id/edit'' ''h2'') \<longrightarrow>
          route_path v \<noteq> route_path (mk_route ''GET'' ''/a/:id/edit'' ''h2'')) \<longrightarrow>
        (\<exists>r'. router_add edit_routes (mk_route ''GET'' ''/a/:id/edit'' ''h2'') = Inr r'))"
    by (rule duplicate_pattern_rejected [OF b]) (simp_all add: mk_route_def proto_member_def)
  have 3: "(route_method (mk_route ''POST'' ''/a/b'' ''h2'') = route_method ?v1 \<longrightarrow>
        router_add edit_routes (mk_route ''POST'' ''/a/b'' ''h2'') = Inl DuplicateRouteError) \<and>
      ((\<forall>v \<in> set [?v1, ?v3]. route_method v = route_method (mk_route ''POST'' ''/a/b'' ''h2'') \<longrightarrow>
          route_path v \<noteq> route_path (mk_route ''POST'' ''/a/b'' ''h2'')) \<longrightarrow>
        (\<exists>r'. router_add edit_routes (mk_route ''POST'' ''/a/b'' ''h2'') = Inr r'))"
    by (rule duplicate_pattern_rejected [OF b]) (simp_all add: mk_route_def proto_member_def)
  from 1 have "router_add edit_routes (mk_route ''GET'' ''/a/b'' ''h2'') = Inl DuplicateRouteError"
    by (simp add: mk_route_def)
  moreover from 2
  have "router_add edit_routes (mk_route ''GET'' ''/a/:id/edit'' ''h2'') = Inl DuplicateRouteError"
    by (simp add: mk_route_def)
  moreover from 3 have "\<exists>r'. router_add edit_routes (mk_route ''POST'' ''/a/b'' ''h2'') = Inr r'"
    by (simp add: mk_route_def)
  ultimately show ?thesis using b by simp
qed

end
